theory Spec2Isabelle
  imports Main
begin

section \<open>Data model\<close>

text \<open>
  A shallow embedding of \<^verbatim>\<open>wallets.svelte.ts\<close>. JavaScript objects compared by
  reference carry an explicit identity: a Provider Handle (\<^verbatim>\<open>Wallet\<close>) has the field
  \<open>ident\<close>, and the \<^verbatim>\<open>WeakMap\<close> \<^verbatim>\<open>connectionPromises\<close> is keyed by it. Of the
  \<^verbatim>\<open>features\<close> mapping only the keys are kept: the code tests \<^verbatim>\<open>name in wallet.features\<close>,
  and what a capability answers is the environment's choice, modelled as the outcome a
  pending promise is settled with.
\<close>

type_synonym err = string

type_synonym account = string

record Wallet =
  ident :: nat
  name :: string
  features :: "string list"

definition StandardConnect :: string where
  "StandardConnect = ''standard:connect''"

definition StandardDisconnect :: string where
  "StandardDisconnect = ''standard:disconnect''"

definition StandardEvents :: string where
  "StandardEvents = ''standard:events''"

text \<open>How a promise settles, and how a call of an \<^verbatim>\<open>async\<close> method ends for its caller.\<close>

datatype 'a settled = Fulfilled 'a | Rejected err

datatype call_result = Returned | Threw err

section \<open>WalletConnection\<close>

record WalletConnection =
  wallet :: "Wallet option"
  account :: "account option"
  connecting :: bool
  connected :: bool
  error :: "err option"

definition new_WalletConnection :: WalletConnection where
  "new_WalletConnection =
     \<lparr>wallet = None, account = None, connecting = False, connected = False, error = None\<rparr>"

text \<open>\<^verbatim>\<open>result.accounts[0] || null\<close>: the first account, \<^verbatim>\<open>null\<close> for an empty list.\<close>

fun first_account :: "account list \<Rightarrow> account option" where
  "first_account [] = None"
| "first_account (a # as) = Some a"

text \<open>The pieces of \<^verbatim>\<open>connect\<close>, each a block of assignments to \<^verbatim>\<open>this\<close>.\<close>

definition connect_begin :: "WalletConnection \<Rightarrow> WalletConnection" where
  "connect_begin this = this\<lparr>connecting := True, error := None\<rparr>"

definition connect_then :: "Wallet \<Rightarrow> account list \<Rightarrow> WalletConnection \<Rightarrow> WalletConnection" where
  "connect_then w result this =
     this\<lparr>wallet := Some w, account := first_account result, connected := True\<rparr>"

definition connect_adopt :: "Wallet \<Rightarrow> account list \<Rightarrow> WalletConnection \<Rightarrow> WalletConnection" where
  "connect_adopt w result this =
     this\<lparr>wallet := Some w, account := first_account result, connected := True\<rparr>"

definition connect_catch :: "err \<Rightarrow> WalletConnection \<Rightarrow> WalletConnection" where
  "connect_catch e this = this\<lparr>error := Some e\<rparr>"

definition connect_finally :: "WalletConnection \<Rightarrow> WalletConnection" where
  "connect_finally this = this\<lparr>connecting := False\<rparr>"

text \<open>
  The rest of \<^verbatim>\<open>connect\<close> after \<^verbatim>\<open>await connectionPromise\<close> (the caller that invoked the
  capability) and after \<^verbatim>\<open>await existingPromise\<close> (a caller that found the table entry).
  A rejected promise makes \<^verbatim>\<open>await\<close> throw into the \<^verbatim>\<open>catch\<close> block, which stores the
  cause and does not rethrow; \<^verbatim>\<open>finally\<close> runs either way, and the method returns.
\<close>

definition connect_resume_own ::
  "account list settled \<Rightarrow> WalletConnection \<Rightarrow> WalletConnection \<times> call_result" where
  "connect_resume_own r this =
     (case r of
        Fulfilled result \<Rightarrow> (connect_finally this, Returned)
      | Rejected e \<Rightarrow> (connect_finally (connect_catch e this), Returned))"

definition connect_resume_existing ::
  "Wallet \<Rightarrow> account list settled \<Rightarrow> WalletConnection \<Rightarrow> WalletConnection \<times> call_result" where
  "connect_resume_existing w r this =
     (case r of
        Fulfilled result \<Rightarrow> (connect_finally (connect_adopt w result this), Returned)
      | Rejected e \<Rightarrow> (connect_finally (connect_catch e this), Returned))"

text \<open>The pieces of \<^verbatim>\<open>disconnect\<close>.\<close>

definition disconnect_clear :: "WalletConnection \<Rightarrow> WalletConnection" where
  "disconnect_clear this = this\<lparr>wallet := None, account := None, connected := False, error := None\<rparr>"

definition disconnect_catch :: "err \<Rightarrow> WalletConnection \<Rightarrow> WalletConnection" where
  "disconnect_catch e this = this\<lparr>error := Some e\<rparr>"

definition disconnect_resume ::
  "unit settled \<Rightarrow> WalletConnection \<Rightarrow> WalletConnection \<times> call_result" where
  "disconnect_resume r this =
     (case r of
        Fulfilled u \<Rightarrow> (disconnect_clear this, Returned)
      | Rejected e \<Rightarrow> (disconnect_catch e this, Returned))"

subsection \<open>The event loop\<close>

text \<open>
  Several controllers share the module-level table, and a method is suspended at its
  \<^verbatim>\<open>await\<close> until the capability's promise settles. The system state holds every
  controller, the table, and the promises still pending. A pending connect promise is
  the chain \<^verbatim>\<open>connectFeature.connect().then(...).finally(...)\<close>: it remembers the wallet and
  the controller its callbacks close over, and the callers suspended on it through
  \<^verbatim>\<open>await existingPromise\<close>, each with its own \<^verbatim>\<open>wallet\<close> argument. \<open>connectCalls\<close> and
  \<open>disconnectCalls\<close> log the capability invocations (by wallet identity).

  A settlement runs its reactions to the end before the next call arrives: promise
  reactions are microtasks, and the model takes the calls from separate tasks.
\<close>

record connect_op =
  op_wallet :: Wallet
  op_this :: nat
  op_awaiting :: "(nat \<times> Wallet) list"

record sys =
  conns :: "nat \<Rightarrow> WalletConnection"
  connectionPromises :: "nat \<rightharpoonup> nat"
  pendingConnects :: "nat \<rightharpoonup> connect_op"
  pendingDisconnects :: "nat \<rightharpoonup> nat"
  nextPromise :: nat
  connectCalls :: "nat list"
  disconnectCalls :: "nat list"

definition init_sys :: sys where
  "init_sys =
     \<lparr>conns = (\<lambda>c. new_WalletConnection), connectionPromises = Map.empty,
      pendingConnects = Map.empty, pendingDisconnects = Map.empty, nextPromise = 0,
      connectCalls = [], disconnectCalls = []\<rparr>"

definition upd_conn :: "nat \<Rightarrow> (WalletConnection \<Rightarrow> WalletConnection) \<Rightarrow> sys \<Rightarrow> sys" where
  "upd_conn c f s = s\<lparr>conns := (conns s)(c := f (conns s c))\<rparr>"

definition await_existing :: "nat \<Rightarrow> nat \<Rightarrow> Wallet \<Rightarrow> sys \<Rightarrow> sys" where
  "await_existing p c w s =
     s\<lparr>pendingConnects := (pendingConnects s)(p :=
          map_option (\<lambda>op. op\<lparr>op_awaiting := op_awaiting op @ [(c, w)]\<rparr>) (pendingConnects s p))\<rparr>"

text \<open>\<^verbatim>\<open>connect(wallet)\<close> on controller \<open>c\<close>, up to the first \<^verbatim>\<open>await\<close> or to its return.\<close>

definition connect :: "nat \<Rightarrow> Wallet \<Rightarrow> sys \<Rightarrow> sys \<times> (nat \<times> call_result) list" where
  "connect c w s =
     (if connecting (conns s c) then (s, [(c, Returned)])
      else
        let s1 = upd_conn c connect_begin s in
        case connectionPromises s1 (ident w) of
          Some existingPromise \<Rightarrow> (await_existing existingPromise c w s1, [])
        | None \<Rightarrow>
            if StandardConnect \<in> set (features w) then
              let p = nextPromise s1 in
              (s1\<lparr>connectCalls := connectCalls s1 @ [ident w],
                  pendingConnects := (pendingConnects s1)(p \<mapsto>
                    \<lparr>op_wallet = w, op_this = c, op_awaiting = []\<rparr>),
                  connectionPromises := (connectionPromises s1)(ident w \<mapsto> p),
                  nextPromise := Suc p\<rparr>, [])
            else (upd_conn c connect_finally s1, [(c, Returned)]))"

text \<open>
  The capability's promise \<open>p\<close> settles with \<open>r\<close>: the \<^verbatim>\<open>then\<close> callback (on fulfilment
  only), the \<^verbatim>\<open>finally\<close> callback that deletes the table entry, then every suspended
  caller resumes, the invoking one first.
\<close>

definition resume_all ::
  "account list settled \<Rightarrow> (nat \<times> Wallet) list \<Rightarrow> sys \<Rightarrow> sys" where
  "resume_all r ws s = fold (\<lambda>(c, w). upd_conn c (\<lambda>this. fst (connect_resume_existing w r this))) ws s"

definition then_callback :: "connect_op \<Rightarrow> account list settled \<Rightarrow> sys \<Rightarrow> sys" where
  "then_callback op r s =
     (case r of
        Fulfilled result \<Rightarrow> upd_conn (op_this op) (connect_then (op_wallet op) result) s
      | Rejected e \<Rightarrow> s)"

definition finally_callback :: "nat \<Rightarrow> connect_op \<Rightarrow> sys \<Rightarrow> sys" where
  "finally_callback p op s =
     s\<lparr>connectionPromises := (connectionPromises s)(ident (op_wallet op) := None),
       pendingConnects := (pendingConnects s)(p := None)\<rparr>"

definition settle_connect ::
  "nat \<Rightarrow> account list settled \<Rightarrow> sys \<Rightarrow> sys \<times> (nat \<times> call_result) list" where
  "settle_connect p r s =
     (case pendingConnects s p of
        None \<Rightarrow> (s, [])
      | Some op \<Rightarrow>
          let s2 = finally_callback p op (then_callback op r s);
              s3 = upd_conn (op_this op) (\<lambda>this. fst (connect_resume_own r this)) s2;
              s4 = resume_all r (op_awaiting op) s3
          in (s4, (op_this op, snd (connect_resume_own r (conns s2 (op_this op))))
                  # map (\<lambda>(c, w). (c, snd (connect_resume_existing w r (conns s3 c))))
                      (op_awaiting op)))"

text \<open>\<^verbatim>\<open>disconnect()\<close> on controller \<open>c\<close>, up to its \<^verbatim>\<open>await\<close> or to its return.\<close>

definition disconnect :: "nat \<Rightarrow> sys \<Rightarrow> sys \<times> (nat \<times> call_result) list" where
  "disconnect c s =
     (case wallet (conns s c) of
        None \<Rightarrow> (s, [(c, Returned)])
      | Some w \<Rightarrow>
          if StandardDisconnect \<in> set (features w) then
            let p = nextPromise s in
            (s\<lparr>disconnectCalls := disconnectCalls s @ [ident w],
               pendingDisconnects := (pendingDisconnects s)(p \<mapsto> c),
               nextPromise := Suc p\<rparr>, [])
          else (upd_conn c disconnect_clear s, [(c, Returned)]))"

definition settle_disconnect ::
  "nat \<Rightarrow> unit settled \<Rightarrow> sys \<Rightarrow> sys \<times> (nat \<times> call_result) list" where
  "settle_disconnect p r s =
     (case pendingDisconnects s p of
        None \<Rightarrow> (s, [])
      | Some c \<Rightarrow>
          let s1 = s\<lparr>pendingDisconnects := (pendingDisconnects s)(p := None)\<rparr>
          in (upd_conn c (\<lambda>this. fst (disconnect_resume r this)) s1,
              [(c, snd (disconnect_resume r (conns s1 c)))]))"

datatype event =
    CallConnect nat Wallet
  | CallDisconnect nat
  | SettleConnect nat "account list settled"
  | SettleDisconnect nat "unit settled"

fun step :: "event \<Rightarrow> sys \<Rightarrow> sys \<times> (nat \<times> call_result) list" where
  "step (CallConnect c w) s = connect c w s"
| "step (CallDisconnect c) s = disconnect c s"
| "step (SettleConnect p r) s = settle_connect p r s"
| "step (SettleDisconnect p r) s = settle_disconnect p r s"

fun run :: "event list \<Rightarrow> sys \<Rightarrow> sys" where
  "run [] s = s"
| "run (e # es) s = run es (fst (step e s))"

definition reachable :: "sys \<Rightarrow> bool" where
  "reachable s \<longleftrightarrow> (\<exists>es. s = run es init_sys)"

section \<open>Properties of the connection system\<close>

text \<open>
  The relation between \<open>connected\<close>, \<open>wallet\<close> and \<open>account\<close> on one controller.
\<close>

definition conn_ok :: "WalletConnection \<Rightarrow> bool" where
  "conn_ok this \<longleftrightarrow>
     (connected this \<longleftrightarrow> wallet this \<noteq> None) \<and> (account this \<noteq> None \<longrightarrow> wallet this \<noteq> None)"

definition unset :: "WalletConnection \<Rightarrow> bool" where
  "unset this \<longleftrightarrow> wallet this = None \<and> account this = None \<and> \<not> connected this"

definition Idle :: "WalletConnection \<Rightarrow> bool" where
  "Idle this \<longleftrightarrow> unset this \<and> \<not> connecting this \<and> error this = None"

text \<open>
  The controllers suspended on a pending connect promise: the one that invoked the
  capability, then the ones that adopted the table entry.
\<close>

definition participants :: "connect_op \<Rightarrow> nat list" where
  "participants op = op_this op # map fst (op_awaiting op)"

text \<open>
  The invariant of the event loop. Every table entry points to a pending promise for
  that wallet; every pending promise is the table entry of its wallet, was allocated
  before \<open>nextPromise\<close>, and its suspended controllers are pairwise different and all
  \<open>connecting\<close>; no controller is suspended on two promises.
\<close>

definition table_ok :: "sys \<Rightarrow> bool" where
  "table_ok s \<longleftrightarrow>
     (\<forall>k p. connectionPromises s k = Some p \<longrightarrow>
        (\<exists>op. pendingConnects s p = Some op \<and> ident (op_wallet op) = k))"

definition ops_ok :: "sys \<Rightarrow> bool" where
  "ops_ok s \<longleftrightarrow>
     (\<forall>p op. pendingConnects s p = Some op \<longrightarrow>
        connectionPromises s (ident (op_wallet op)) = Some p \<and> p < nextPromise s \<and>
        distinct (participants op) \<and> (\<forall>c \<in> set (participants op). connecting (conns s c)))"

definition ops_disjoint :: "sys \<Rightarrow> bool" where
  "ops_disjoint s \<longleftrightarrow>
     (\<forall>p q op op'. pendingConnects s p = Some op \<longrightarrow> pendingConnects s q = Some op' \<longrightarrow> p \<noteq> q \<longrightarrow>
        set (participants op) \<inter> set (participants op') = {})"

definition sys_inv :: "sys \<Rightarrow> bool" where
  "sys_inv s \<longleftrightarrow> table_ok s \<and> ops_ok s \<and> ops_disjoint s"

text \<open>\<open>settles p e\<close>: the event \<open>e\<close> settles the connect promise \<open>p\<close>.\<close>

fun settles :: "nat \<Rightarrow> event \<Rightarrow> bool" where
  "settles p (SettleConnect q r) = (q = p)"
| "settles p e = False"

text \<open>
  \<open>in_flight p c w s\<close>: the connect operation that controller \<open>c\<close> started on wallet \<open>w\<close>
  is pending as promise \<open>p\<close> and registered in the table.
\<close>

definition in_flight :: "nat \<Rightarrow> nat \<Rightarrow> Wallet \<Rightarrow> sys \<Rightarrow> bool" where
  "in_flight p c w s \<longleftrightarrow>
     connectionPromises s (ident w) = Some p \<and>
     (\<exists>op. pendingConnects s p = Some op \<and> op_this op = c \<and> op_wallet op = w)"


text \<open>Example wallets for the concrete runs.\<close>

definition acme :: Wallet where
  "acme = \<lparr>ident = 0, name = ''Acme'', features = [StandardConnect, StandardDisconnect]\<rparr>"

definition basic :: Wallet where
  "basic = \<lparr>ident = 1, name = ''Basic Wallet'', features = []\<rparr>"

section \<open>The Provider Collection\<close>

text \<open>
  \<^verbatim>\<open>WalletsStore\<close> reassigns its \<^verbatim>\<open>wallets\<close> array, and one claim is about which array
  object that is, so an array carries a reference: the arrays the registry hands out
  and the arrays the store creates by spreading are numbered apart.
\<close>

datatype aref = RegistryArray nat | SpreadArray nat

record 'a array =
  ref :: aref
  elems :: "'a list"

text \<open>
  The registry of \<^verbatim>\<open>@wallet-standard/app\<close> is a collaborator: \<^verbatim>\<open>get()\<close> answers its
  current array, and it calls the \<^verbatim>\<open>register\<close> and \<^verbatim>\<open>unregister\<close> listeners with no
  payload after its array changed.
\<close>

record registry =
  snapshot :: nat
  registered :: "Wallet list"

definition get :: "registry \<Rightarrow> Wallet array" where
  "get reg = \<lparr>ref = RegistryArray (snapshot reg), elems = registered reg\<rparr>"

text \<open>
  \<open>disposers\<close> holds one unsubscribe function for each registry channel subscribed to,
  \<open>eventDisposers\<close> one for each provider (by identity) whose \<^verbatim>\<open>change\<close> event is
  subscribed to; \<open>spreads\<close> counts the arrays the store has created.
\<close>

record WalletsStore =
  wallets :: "Wallet array"
  disposers :: "string list"
  eventDisposers :: "nat list"
  spreads :: nat

definition setupEventListeners :: "WalletsStore \<Rightarrow> WalletsStore" where
  "setupEventListeners this =
     this\<lparr>eventDisposers :=
       map ident (filter (\<lambda>w. StandardEvents \<in> set (features w)) (elems (wallets this)))\<rparr>"

definition new_WalletsStore :: "registry \<Rightarrow> WalletsStore" where
  "new_WalletsStore reg =
     setupEventListeners
       \<lparr>wallets = get reg, disposers = [''register'', ''unregister''], eventDisposers = [],
        spreads = 0\<rparr>"

text \<open>The listener of both registry channels, called while its subscription is held.\<close>

definition on_registry :: "string \<Rightarrow> registry \<Rightarrow> WalletsStore \<Rightarrow> WalletsStore" where
  "on_registry channel reg this =
     (if channel \<in> set (disposers this)
      then setupEventListeners (this\<lparr>wallets := get reg\<rparr>)
      else this)"

text \<open>The \<^verbatim>\<open>change\<close> listener: \<^verbatim>\<open>this.wallets = [...this.wallets]\<close>.\<close>

definition on_change :: "WalletsStore \<Rightarrow> WalletsStore" where
  "on_change this =
     this\<lparr>wallets := \<lparr>ref = SpreadArray (spreads this), elems = elems (wallets this)\<rparr>,
          spreads := Suc (spreads this)\<rparr>"

text \<open>A provider emits \<^verbatim>\<open>change\<close>: every listener subscribed on it runs.\<close>

definition emit_change :: "nat \<Rightarrow> WalletsStore \<Rightarrow> WalletsStore" where
  "emit_change k this = (on_change ^^ count_list (eventDisposers this) k) this"

definition destroy :: "WalletsStore \<Rightarrow> WalletsStore" where
  "destroy this = this\<lparr>disposers := [], eventDisposers := []\<rparr>"

text \<open>
  The registry together with one store. A registry event carries the state the
  registry is in when it calls the listeners; how the registry got there is its own
  business.
\<close>

datatype registry_event = Register registry | Unregister registry | Change nat

fun world_step :: "registry_event \<Rightarrow> registry \<times> WalletsStore \<Rightarrow> registry \<times> WalletsStore" where
  "world_step (Register reg') (reg, store) = (reg', on_registry ''register'' reg' store)"
| "world_step (Unregister reg') (reg, store) = (reg', on_registry ''unregister'' reg' store)"
| "world_step (Change k) (reg, store) = (reg, emit_change k store)"

fun world_run :: "registry_event list \<Rightarrow> registry \<times> WalletsStore \<Rightarrow> registry \<times> WalletsStore" where
  "world_run [] x = x"
| "world_run (ev # evs) x = world_run evs (world_step ev x)"

definition new_world :: "registry \<Rightarrow> registry \<times> WalletsStore" where
  "new_world reg = (reg, new_WalletsStore reg)"

text \<open>What holds of a store that was built and then only received events.\<close>

definition store_inv :: "WalletsStore \<Rightarrow> bool" where
  "store_inv this \<longleftrightarrow>
     disposers this = [''register'', ''unregister''] \<and>
     eventDisposers this
       = map ident (filter (\<lambda>w. StandardEvents \<in> set (features w)) (elems (wallets this))) \<and>
     (case ref (wallets this) of RegistryArray n \<Rightarrow> True | SpreadArray n \<Rightarrow> n < spreads this)"

text \<open>Example providers and registry states for the concrete runs.\<close>

definition acme_events :: Wallet where
  "acme_events =
     \<lparr>ident = 2, name = ''Acme'', features = [StandardConnect, StandardEvents]\<rparr>"

definition reg0 :: registry where
  "reg0 = \<lparr>snapshot = 0, registered = [basic]\<rparr>"

definition reg1 :: registry where
  "reg1 = \<lparr>snapshot = 1, registered = [basic, acme_events]\<rparr>"

text \<open>The store agrees with the registry it listens to.\<close>

definition world_inv :: "registry \<times> WalletsStore \<Rightarrow> bool" where
  "world_inv x \<longleftrightarrow> store_inv (snd x) \<and> elems (wallets (snd x)) = registered (fst x)"

section \<open>The Identity Cache and the Public Collection\<close>

text \<open>
  A Public Handle (\<^verbatim>\<open>UiWallet\<close>): its own object identity, the name and the list of
  capability names of the provider it was derived from.
\<close>

record UiWallet =
  handle :: nat
  ui_name :: string
  ui_features :: "string list"

text \<open>
  The cache maps the identity of a provider to the handle derived from it; a new handle
  gets the next free handle number.
\<close>

record cache =
  cached :: "nat \<rightharpoonup> UiWallet"
  next_handle :: nat

definition empty_cache :: cache where
  "empty_cache = \<lparr>cached = Map.empty, next_handle = 0\<rparr>"

text \<open>
  Modelled from the spec: \<^verbatim>\<open>getOrCreateUiWalletForStandardWallet\<close> comes from
  \<^verbatim>\<open>@wallet-standard/ui-registry\<close> and is not part of the sources. The spec (4.2) gives
  its contract as \<^verbatim>\<open>derivePublicHandle\<close>: it returns the cached Public Handle if one exists
  for the exact Provider Handle reference, else constructs, caches and returns a new
  one, and never fails.
\<close>

definition derivePublicHandle :: "Wallet \<Rightarrow> cache \<Rightarrow> UiWallet \<times> cache" where
  "derivePublicHandle w c =
     (case cached c (ident w) of
        Some u \<Rightarrow> (u, c)
      | None \<Rightarrow>
          let u = \<lparr>handle = next_handle c, ui_name = name w, ui_features = features w\<rparr>
          in (u, c\<lparr>cached := (cached c)(ident w \<mapsto> u), next_handle := Suc (next_handle c)\<rparr>))"

text \<open>\<^verbatim>\<open>rawWallets.map(getOrCreateUiWalletForStandardWallet)\<close>, left to right.\<close>

fun map_derive :: "Wallet list \<Rightarrow> cache \<Rightarrow> UiWallet list \<times> cache" where
  "map_derive [] c = ([], c)"
| "map_derive (w # ws) c =
     (let (u, c1) = derivePublicHandle w c; (us, c2) = map_derive ws c1 in (u # us, c2))"

text \<open>\<^verbatim>\<open>useWallets()\<close> and \<^verbatim>\<open>UiWalletsStore.loadWallets()\<close>, from the sources.\<close>

definition useWallets :: "registry \<Rightarrow> cache \<Rightarrow> UiWallet list \<times> cache" where
  "useWallets reg c = map_derive (elems (get reg)) c"

record UiWalletsStore =
  ui_wallets :: "UiWallet list"
  ui_disposers :: "string list"

definition loadWallets :: "registry \<Rightarrow> UiWalletsStore \<Rightarrow> cache \<Rightarrow> UiWalletsStore \<times> cache" where
  "loadWallets reg this c =
     (let (us, c') = map_derive (elems (get reg)) c in (this\<lparr>ui_wallets := us\<rparr>, c'))"

section \<open>The per-wallet helpers\<close>

text \<open>
  What an \<^verbatim>\<open>async\<close> method hands back: a promise still pending (known by its number),
  or one already settled. A \<^verbatim>\<open>throw\<close> in the method body is a promise already rejected.
\<close>

datatype 'a promise = Pending nat | Settled "'a settled"

definition not_found_error :: "string \<Rightarrow> err" where
  "not_found_error n = ''Wallet '' @ [CHR 0x22] @ n @ [CHR 0x22] @ '' not found in global registry''"

text \<open>
  Modelled from the spec: \<^verbatim>\<open>getWalletFeature\<close> hands the call to the Capability
  Accessor of \<^verbatim>\<open>@wallet-standard/ui-features\<close>, which is not part of the sources. By the
  spec (4.2) it fails with \<^verbatim>\<open>CapabilityNotFound\<close> when the name is not in the handle's list
  of capability names, and otherwise answers the capability object, of which nothing
  but its presence is kept here.
\<close>

definition capability_not_found :: "string \<Rightarrow> err" where
  "capability_not_found featureName = ''CapabilityNotFound: '' @ featureName"

definition getWalletFeature :: "UiWallet \<Rightarrow> string \<Rightarrow> err + unit" where
  "getWalletFeature uiWalletHandle featureName =
     (if featureName \<in> set (ui_features uiWalletHandle) then Inr ()
      else Inl (capability_not_found featureName))"

subsection \<open>UiWalletConnect\<close>

record UiWalletConnect =
  uc_connecting :: bool
  uc_error :: "err option"
  uc_connectionPromise :: "nat option"
  uc_uiWallet :: UiWallet

definition new_UiWalletConnect :: "UiWallet \<Rightarrow> UiWalletConnect" where
  "new_UiWalletConnect uiWallet =
     \<lparr>uc_connecting = False, uc_error = None, uc_connectionPromise = None,
      uc_uiWallet = uiWallet\<rparr>"

text \<open>
  \<^verbatim>\<open>connect(input)\<close>, up to its return. \<open>getOrCreateUiWallet\<close> is the identity cache's
  derivation, \<open>globalWallets\<close> what the registry's \<^verbatim>\<open>get()\<close> answers now, and \<open>p\<close> the
  number of the promise chain created when the capability is invoked.
\<close>

definition ui_connect ::
  "(Wallet \<Rightarrow> UiWallet) \<Rightarrow> Wallet list \<Rightarrow> nat \<Rightarrow> UiWalletConnect
     \<Rightarrow> UiWalletConnect \<times> account list promise" where
  "ui_connect getOrCreateUiWallet globalWallets p this =
     (case uc_connectionPromise this of
        Some q \<Rightarrow> (this, Pending q)
      | None \<Rightarrow>
          let this1 = this\<lparr>uc_connecting := True, uc_error := None\<rparr> in
          case find (\<lambda>w. name w = ui_name (uc_uiWallet this1)) globalWallets of
            None \<Rightarrow>
              let error = not_found_error (ui_name (uc_uiWallet this1)) in
              (this1\<lparr>uc_connecting := False, uc_error := Some error\<rparr>, Settled (Rejected error))
          | Some matchingWallet \<Rightarrow>
              let freshUiWallet = getOrCreateUiWallet matchingWallet in
              case getWalletFeature freshUiWallet StandardConnect of
                Inl e \<Rightarrow> (this1, Settled (Rejected e))
              | Inr connectFeature \<Rightarrow> (this1\<lparr>uc_connectionPromise := Some p\<rparr>, Pending p))"

text \<open>
  The chain \<^verbatim>\<open>.then(...).catch(...).finally(...)\<close> when the capability's promise settles:
  the state of the controller and how the chained promise, which the caller holds,
  settles. The \<^verbatim>\<open>catch\<close> callback stores the cause and rethrows it. The \<^verbatim>\<open>then\<close>
  callback maps every account to its public representation in the identity cache; the
  accounts are passed on here as they are.
\<close>

definition ui_connect_settle ::
  "account list settled \<Rightarrow> UiWalletConnect \<Rightarrow> UiWalletConnect \<times> account list settled" where
  "ui_connect_settle r this =
     (case r of
        Fulfilled accounts \<Rightarrow>
          (this\<lparr>uc_connecting := False, uc_connectionPromise := None\<rparr>, Fulfilled accounts)
      | Rejected e \<Rightarrow>
          (this\<lparr>uc_error := Some e, uc_connecting := False, uc_connectionPromise := None\<rparr>,
           Rejected e))"

subsection \<open>UiWalletDisconnect\<close>

record UiWalletDisconnect =
  ud_disconnecting :: bool
  ud_error :: "err option"
  ud_disconnectionPromise :: "nat option"
  ud_uiWallet :: UiWallet

definition ui_disconnect ::
  "(Wallet \<Rightarrow> UiWallet) \<Rightarrow> Wallet list \<Rightarrow> nat \<Rightarrow> UiWalletDisconnect
     \<Rightarrow> UiWalletDisconnect \<times> unit promise" where
  "ui_disconnect getOrCreateUiWallet globalWallets p this =
     (case ud_disconnectionPromise this of
        Some q \<Rightarrow> (this, Pending q)
      | None \<Rightarrow>
          let this1 = this\<lparr>ud_disconnecting := True, ud_error := None\<rparr> in
          case find (\<lambda>w. name w = ui_name (ud_uiWallet this1)) globalWallets of
            None \<Rightarrow> (this1, Settled (Rejected (not_found_error (ui_name (ud_uiWallet this1)))))
          | Some matchingWallet \<Rightarrow>
              let freshUiWallet = getOrCreateUiWallet matchingWallet in
              case getWalletFeature freshUiWallet StandardDisconnect of
                Inl e \<Rightarrow> (this1, Settled (Rejected e))
              | Inr disconnectFeature \<Rightarrow>
                  (this1\<lparr>ud_disconnectionPromise := Some p\<rparr>, Pending p))"

definition ui_disconnect_settle ::
  "unit settled \<Rightarrow> UiWalletDisconnect \<Rightarrow> UiWalletDisconnect \<times> unit settled" where
  "ui_disconnect_settle r this =
     (case r of
        Fulfilled u \<Rightarrow>
          (this\<lparr>ud_disconnecting := False, ud_disconnectionPromise := None\<rparr>, Fulfilled u)
      | Rejected e \<Rightarrow>
          (this\<lparr>ud_error := Some e, ud_disconnecting := False, ud_disconnectionPromise := None\<rparr>,
           Rejected e))"

subsection \<open>WalletConnect and WalletDisconnect\<close>

record WalletConnect =
  wc_connecting :: bool
  wc_error :: "err option"
  wc_connectionPromise :: "nat option"
  wc_wallet :: Wallet

definition wallet_connect ::
  "nat \<Rightarrow> WalletConnect \<Rightarrow> WalletConnect \<times> account list promise" where
  "wallet_connect p this =
     (case wc_connectionPromise this of
        Some q \<Rightarrow> (this, Pending q)
      | None \<Rightarrow>
          let this1 = this\<lparr>wc_connecting := True, wc_error := None\<rparr> in
          if StandardConnect \<in> set (features (wc_wallet this1))
          then (this1\<lparr>wc_connectionPromise := Some p\<rparr>, Pending p)
          else (this1\<lparr>wc_connecting := False\<rparr>, Settled (Fulfilled [])))"

definition wallet_connect_settle ::
  "account list settled \<Rightarrow> WalletConnect \<Rightarrow> WalletConnect \<times> account list settled" where
  "wallet_connect_settle r this =
     (case r of
        Fulfilled accounts \<Rightarrow>
          (this\<lparr>wc_connecting := False, wc_connectionPromise := None\<rparr>, Fulfilled accounts)
      | Rejected e \<Rightarrow>
          (this\<lparr>wc_error := Some e, wc_connecting := False, wc_connectionPromise := None\<rparr>,
           Rejected e))"

record WalletDisconnect =
  wd_disconnecting :: bool
  wd_error :: "err option"
  wd_disconnectionPromise :: "nat option"
  wd_wallet :: Wallet

definition wallet_disconnect ::
  "nat \<Rightarrow> WalletDisconnect \<Rightarrow> WalletDisconnect \<times> unit promise" where
  "wallet_disconnect p this =
     (case wd_disconnectionPromise this of
        Some q \<Rightarrow> (this, Pending q)
      | None \<Rightarrow>
          let this1 = this\<lparr>wd_disconnecting := True, wd_error := None\<rparr> in
          if StandardDisconnect \<in> set (features (wd_wallet this1))
          then (this1\<lparr>wd_disconnectionPromise := Some p\<rparr>, Pending p)
          else (this1\<lparr>wd_disconnecting := False\<rparr>, Settled (Fulfilled ())))"

definition wallet_disconnect_settle ::
  "unit settled \<Rightarrow> WalletDisconnect \<Rightarrow> WalletDisconnect \<times> unit settled" where
  "wallet_disconnect_settle r this =
     (case r of
        Fulfilled u \<Rightarrow>
          (this\<lparr>wd_disconnecting := False, wd_disconnectionPromise := None\<rparr>, Fulfilled u)
      | Rejected e \<Rightarrow>
          (this\<lparr>wd_error := Some e, wd_disconnecting := False, wd_disconnectionPromise := None\<rparr>,
           Rejected e))"

text \<open>Example handle and derivation for the concrete runs.\<close>

definition derive0 :: "Wallet \<Rightarrow> UiWallet" where
  "derive0 w = fst (derivePublicHandle w empty_cache)"

definition acme_ui :: UiWallet where
  "acme_ui = \<lparr>handle = 0, ui_name = ''Acme'', ui_features = [StandardConnect, StandardDisconnect]\<rparr>"

text \<open>
  A state with a connect promise and a disconnect promise both pending: controller 0 is
  connected and disconnecting, controller 1 invoked the capability again and controller
  2 adopted that promise.
\<close>

definition busy :: sys where
  "busy = run [CallConnect 0 acme, SettleConnect 0 (Fulfilled [''0xAB'']), CallDisconnect 0,
     CallConnect 1 acme, CallConnect 2 acme] init_sys"

text \<open>Controller 0 connected to Acme, nothing pending.\<close>

definition connected0 :: sys where
  "connected0 = run [CallConnect 0 acme, SettleConnect 0 (Fulfilled [''0xAB''])] init_sys"

section \<open>Lemmas about the connection system\<close>

lemma conns_upd_conn [simp]: "conns (upd_conn c f s) c' = (if c' = c then f (conns s c) else conns s c')"
  by (simp add: upd_conn_def)

lemma upd_conn_fields [simp]:
  "connectionPromises (upd_conn c f s) = connectionPromises s"
  "pendingConnects (upd_conn c f s) = pendingConnects s"
  "pendingDisconnects (upd_conn c f s) = pendingDisconnects s"
  "nextPromise (upd_conn c f s) = nextPromise s"
  "connectCalls (upd_conn c f s) = connectCalls s"
  "disconnectCalls (upd_conn c f s) = disconnectCalls s"
  by (simp_all add: upd_conn_def)

lemma resume_all_fields [simp]:
  "connectionPromises (resume_all r ws s) = connectionPromises s"
  "pendingConnects (resume_all r ws s) = pendingConnects s"
  "pendingDisconnects (resume_all r ws s) = pendingDisconnects s"
  "nextPromise (resume_all r ws s) = nextPromise s"
  "connectCalls (resume_all r ws s) = connectCalls s"
  "disconnectCalls (resume_all r ws s) = disconnectCalls s"
  by (induction ws arbitrary: s; simp add: resume_all_def split: prod.splits)+

lemma resume_all_Nil [simp]: "resume_all r [] s = s"
  by (simp add: resume_all_def)

lemma resume_all_Cons [simp]:
  "resume_all r ((c, w) # ws) s = resume_all r ws (upd_conn c (\<lambda>this. fst (connect_resume_existing w r this)) s)"
  by (simp add: resume_all_def)

lemma conn_ok_pieces:
  "conn_ok this \<Longrightarrow> conn_ok (connect_begin this)"
  "conn_ok (connect_then w result this)"
  "conn_ok (connect_adopt w result this)"
  "conn_ok this \<Longrightarrow> conn_ok (connect_catch e this)"
  "conn_ok this \<Longrightarrow> conn_ok (connect_finally this)"
  "conn_ok (disconnect_clear this)"
  "conn_ok this \<Longrightarrow> conn_ok (disconnect_catch e this)"
  by (simp_all add: conn_ok_def connect_begin_def connect_then_def connect_adopt_def
      connect_catch_def connect_finally_def disconnect_clear_def disconnect_catch_def)

lemma conn_ok_resume:
  "conn_ok this \<Longrightarrow> conn_ok (fst (connect_resume_own r this))"
  "conn_ok this \<Longrightarrow> conn_ok (fst (connect_resume_existing w r this))"
  "conn_ok this \<Longrightarrow> conn_ok (fst (disconnect_resume r' this))"
  by (simp_all add: connect_resume_own_def connect_resume_existing_def disconnect_resume_def
      conn_ok_pieces split: settled.splits)

lemma conn_ok_resume_all:
  "\<forall>c. conn_ok (conns s c) \<Longrightarrow> \<forall>c. conn_ok (conns (resume_all r ws s) c)"
  by (induction ws arbitrary: s) (auto simp: conn_ok_resume)

lemma conn_ok_connect:
  assumes "\<forall>c. conn_ok (conns s c)"
  shows "\<forall>c'. conn_ok (conns (fst (connect c w s)) c')"
  using assms
  by (auto simp: connect_def Let_def await_existing_def conn_ok_pieces split: option.splits)

lemma conn_ok_settle_connect:
  assumes "\<forall>c. conn_ok (conns s c)"
  shows "\<forall>c'. conn_ok (conns (fst (settle_connect p r s)) c')"
proof (cases "pendingConnects s p")
  case None
  then show ?thesis using assms by (simp add: settle_connect_def)
next
  case (Some op)
  let ?s2 = "finally_callback p op (then_callback op r s)"
  have 2: "\<forall>c. conn_ok (conns ?s2 c)"
    using assms
    by (auto simp: finally_callback_def then_callback_def conn_ok_pieces split: settled.splits)
  let ?s3 = "upd_conn (op_this op) (\<lambda>this. fst (connect_resume_own r this)) ?s2"
  have 3: "\<forall>c. conn_ok (conns ?s3 c)" using 2 by (auto simp: conn_ok_resume)
  have "\<forall>c. conn_ok (conns (resume_all r (op_awaiting op) ?s3) c)"
    using 3 by (rule conn_ok_resume_all)
  then show ?thesis using Some by (simp add: settle_connect_def Let_def)
qed

lemma conn_ok_disconnect:
  assumes "\<forall>c. conn_ok (conns s c)"
  shows "\<forall>c'. conn_ok (conns (fst (disconnect c s)) c')"
  using assms
  by (auto simp: disconnect_def Let_def conn_ok_pieces split: option.splits)

lemma conn_ok_settle_disconnect:
  assumes "\<forall>c. conn_ok (conns s c)"
  shows "\<forall>c'. conn_ok (conns (fst (settle_disconnect p r s)) c')"
  using assms
  by (auto simp: settle_disconnect_def Let_def conn_ok_resume split: option.splits)

lemma sys_inv_init: "sys_inv init_sys"
  by (simp add: sys_inv_def table_ok_def ops_ok_def ops_disjoint_def init_sys_def)

lemma connecting_pieces [simp]:
  "connecting (connect_begin this) = True"
  "connecting (connect_then w result this) = connecting this"
  "connecting (connect_adopt w result this) = connecting this"
  "connecting (connect_catch e this) = connecting this"
  "connecting (connect_finally this) = False"
  "connecting (disconnect_clear this) = connecting this"
  "connecting (disconnect_catch e this) = connecting this"
  "connecting (fst (disconnect_resume r' this)) = connecting this"
  by (simp_all add: connect_begin_def connect_then_def connect_adopt_def
      connect_catch_def connect_finally_def disconnect_clear_def disconnect_catch_def
      disconnect_resume_def split: settled.splits)

lemma conns_resume_all_other:
  "c \<notin> fst ` set ws \<Longrightarrow> conns (resume_all r ws s) c = conns s c"
  by (induction ws arbitrary: s) auto

text \<open>A busy controller takes part in no other pending operation.\<close>

lemma not_connecting_no_participant:
  assumes "ops_ok s" "\<not> connecting (conns s c)" "pendingConnects s p = Some op"
  shows "c \<notin> set (participants op)"
  using assms unfolding ops_ok_def by blast

subsection \<open>connect preserves the invariant\<close>

lemma connect_busy: "connecting (conns s c) \<Longrightarrow> connect c w s = (s, [(c, Returned)])"
  by (simp add: connect_def)

lemma connect_existing:
  assumes "\<not> connecting (conns s c)" "connectionPromises s (ident w) = Some p"
  shows "connect c w s = (await_existing p c w (upd_conn c connect_begin s), [])"
  using assms by (simp add: connect_def Let_def)

lemma connect_invoke:
  assumes "\<not> connecting (conns s c)" "connectionPromises s (ident w) = None"
    "StandardConnect \<in> set (features w)"
  shows "connect c w s =
    ((upd_conn c connect_begin s)\<lparr>connectCalls := connectCalls s @ [ident w],
        pendingConnects := (pendingConnects s)(nextPromise s \<mapsto>
           \<lparr>op_wallet = w, op_this = c, op_awaiting = []\<rparr>),
        connectionPromises := (connectionPromises s)(ident w \<mapsto> nextPromise s),
        nextPromise := Suc (nextPromise s)\<rparr>, [])"
  using assms by (simp add: connect_def Let_def)

lemma connect_no_capability:
  assumes "\<not> connecting (conns s c)" "connectionPromises s (ident w) = None"
    "StandardConnect \<notin> set (features w)"
  shows "connect c w s = (upd_conn c connect_finally (upd_conn c connect_begin s), [(c, Returned)])"
  using assms by (simp add: connect_def Let_def)

lemma inv_upd_same_connecting:
  assumes "sys_inv s" "connecting (f (conns s c)) = connecting (conns s c)"
  shows "sys_inv (upd_conn c f s)"
  using assms unfolding sys_inv_def table_ok_def ops_ok_def ops_disjoint_def
  by simp

lemma inv_upd_idle:
  assumes "sys_inv s" "\<not> connecting (conns s c)"
  shows "sys_inv (upd_conn c f s)"
proof -
  have np: "\<And>p op. pendingConnects s p = Some op \<Longrightarrow> c \<notin> set (participants op)"
    using assms not_connecting_no_participant unfolding sys_inv_def by blast
  have "ops_ok (upd_conn c f s)"
    unfolding ops_ok_def
  proof (intro allI impI)
    fix p op assume "pendingConnects (upd_conn c f s) p = Some op"
    then have P: "pendingConnects s p = Some op" by simp
    then have "connectionPromises s (ident (op_wallet op)) = Some p \<and> p < nextPromise s \<and>
        distinct (participants op) \<and> (\<forall>c \<in> set (participants op). connecting (conns s c))"
      using assms(1) unfolding sys_inv_def ops_ok_def by blast
    moreover have "c \<notin> set (participants op)" using np P by blast
    ultimately show "connectionPromises (upd_conn c f s) (ident (op_wallet op)) = Some p \<and>
        p < nextPromise (upd_conn c f s) \<and> distinct (participants op) \<and>
        (\<forall>c' \<in> set (participants op). connecting (conns (upd_conn c f s) c'))"
      by auto
  qed
  then show ?thesis
    using assms(1) unfolding sys_inv_def table_ok_def ops_disjoint_def by simp
qed

lemma participants_await [simp]:
  "participants (op\<lparr>op_awaiting := op_awaiting op @ [(c, w)]\<rparr>) = participants op @ [c]"
  by (simp add: participants_def)

lemma await_existing_fields [simp]:
  "conns (await_existing p c w s) = conns s"
  "connectionPromises (await_existing p c w s) = connectionPromises s"
  "pendingDisconnects (await_existing p c w s) = pendingDisconnects s"
  "nextPromise (await_existing p c w s) = nextPromise s"
  "connectCalls (await_existing p c w s) = connectCalls s"
  "disconnectCalls (await_existing p c w s) = disconnectCalls s"
  by (simp_all add: await_existing_def)

lemma pending_await_existing:
  "pendingConnects (await_existing p c w s) q =
     (if q = p then map_option (\<lambda>op. op\<lparr>op_awaiting := op_awaiting op @ [(c, w)]\<rparr>) (pendingConnects s p)
      else pendingConnects s q)"
  by (simp add: await_existing_def)

lemma inv_connect_existing:
  assumes inv: "sys_inv s" and idle: "\<not> connecting (conns s c)"
  shows "sys_inv (await_existing p c w (upd_conn c connect_begin s))"
proof -
  let ?s' = "await_existing p c w (upd_conn c connect_begin s)"
  have T: "table_ok s" and O: "ops_ok s" and D: "ops_disjoint s"
    using inv by (simp_all add: sys_inv_def)
  have np: "\<And>q op. pendingConnects s q = Some op \<Longrightarrow> c \<notin> set (participants op)"
    using O idle not_connecting_no_participant by blast
  have pend: "\<And>q op'. pendingConnects ?s' q = Some op' \<Longrightarrow>
      \<exists>op. pendingConnects s q = Some op \<and> op_wallet op' = op_wallet op \<and>
        (participants op' = participants op \<or> (q = p \<and> participants op' = participants op @ [c]))"
    by (auto simp: pending_await_existing split: if_splits)
  have pend2: "\<And>q op. pendingConnects s q = Some op \<Longrightarrow>
      \<exists>op'. pendingConnects ?s' q = Some op' \<and> op_wallet op' = op_wallet op"
    by (auto simp: pending_await_existing)
  have "table_ok ?s'"
    unfolding table_ok_def
  proof (intro allI impI)
    fix k q assume "connectionPromises ?s' k = Some q"
    then have "connectionPromises s k = Some q" by simp
    then obtain op where "pendingConnects s q = Some op" "ident (op_wallet op) = k"
      using T unfolding table_ok_def by blast
    then show "\<exists>op. pendingConnects ?s' q = Some op \<and> ident (op_wallet op) = k"
      using pend2 by fastforce
  qed
  moreover have "ops_ok ?s'"
    unfolding ops_ok_def
  proof (intro allI impI)
    fix q op' assume A: "pendingConnects ?s' q = Some op'"
    then obtain op where op: "pendingConnects s q = Some op" "op_wallet op' = op_wallet op"
      "participants op' = participants op \<or> (q = p \<and> participants op' = participants op @ [c])"
      using pend by blast
    have old: "connectionPromises s (ident (op_wallet op)) = Some q" "q < nextPromise s"
        "distinct (participants op)" "\<forall>c \<in> set (participants op). connecting (conns s c)"
      using O op(1) unfolding ops_ok_def by blast+
    have "c \<notin> set (participants op)" using np op(1) by blast
    then have "distinct (participants op')" using old(3) op(3) by auto
    moreover have "\<forall>c' \<in> set (participants op'). connecting (conns ?s' c')"
      using old(4) op(3) by auto
    ultimately show "connectionPromises ?s' (ident (op_wallet op')) = Some q \<and> q < nextPromise ?s' \<and>
        distinct (participants op') \<and> (\<forall>c \<in> set (participants op'). connecting (conns ?s' c))"
      using old(1,2) op(2) by simp
  qed
  moreover have "ops_disjoint ?s'"
    unfolding ops_disjoint_def
  proof (intro allI impI)
    fix q q' op1 op2
    assume A: "pendingConnects ?s' q = Some op1" "pendingConnects ?s' q' = Some op2" "q \<noteq> q'"
    have "\<exists>o1. pendingConnects s q = Some o1 \<and>
        set (participants op1) \<subseteq> insert c (set (participants o1)) \<and>
        (q \<noteq> p \<longrightarrow> participants op1 = participants o1)"
      using pend[OF A(1)] by force
    then obtain o1 where o1: "pendingConnects s q = Some o1"
      "set (participants op1) \<subseteq> insert c (set (participants o1))"
      and o1': "q \<noteq> p \<Longrightarrow> participants op1 = participants o1"
      by blast
    have "\<exists>o2. pendingConnects s q' = Some o2 \<and>
        set (participants op2) \<subseteq> insert c (set (participants o2)) \<and>
        (q' \<noteq> p \<longrightarrow> participants op2 = participants o2)"
      using pend[OF A(2)] by force
    then obtain o2 where o2: "pendingConnects s q' = Some o2"
      "set (participants op2) \<subseteq> insert c (set (participants o2))"
      and o2': "q' \<noteq> p \<Longrightarrow> participants op2 = participants o2"
      by blast
    have dis: "set (participants o1) \<inter> set (participants o2) = {}"
      using D o1(1) o2(1) A(3) unfolding ops_disjoint_def by blast
    have "c \<notin> set (participants o1)" "c \<notin> set (participants o2)"
      using np o1(1) o2(1) by blast+
    then show "set (participants op1) \<inter> set (participants op2) = {}"
      using dis o1(2) o2(2) o1' o2' A(3) by (cases "q = p"; cases "q' = p") auto
  qed
  ultimately show ?thesis by (simp add: sys_inv_def)
qed

lemma inv_connect_invoke:
  assumes inv: "sys_inv s" and idle: "\<not> connecting (conns s c)"
    and free: "connectionPromises s (ident w) = None"
  shows "sys_inv ((upd_conn c connect_begin s)\<lparr>connectCalls := connectCalls s @ [ident w],
        pendingConnects := (pendingConnects s)(nextPromise s \<mapsto>
           \<lparr>op_wallet = w, op_this = c, op_awaiting = []\<rparr>),
        connectionPromises := (connectionPromises s)(ident w \<mapsto> nextPromise s),
        nextPromise := Suc (nextPromise s)\<rparr>)" (is "sys_inv ?s'")
proof -
  have T: "table_ok s" and O: "ops_ok s" and D: "ops_disjoint s"
    using inv by (simp_all add: sys_inv_def)
  have np: "\<And>q op. pendingConnects s q = Some op \<Longrightarrow> c \<notin> set (participants op)"
    using O idle not_connecting_no_participant by blast
  have fresh: "pendingConnects s (nextPromise s) = None"
  proof (cases "pendingConnects s (nextPromise s)")
    case (Some op)
    then have "nextPromise s < nextPromise s" using O unfolding ops_ok_def by blast
    then show ?thesis by simp
  qed simp
  have nokey: "\<And>q op. pendingConnects s q = Some op \<Longrightarrow> ident (op_wallet op) \<noteq> ident w"
    using O free unfolding ops_ok_def by fastforce
  have "table_ok ?s'"
    unfolding table_ok_def
  proof (intro allI impI)
    fix k q assume A: "connectionPromises ?s' k = Some q"
    show "\<exists>op. pendingConnects ?s' q = Some op \<and> ident (op_wallet op) = k"
    proof (cases "k = ident w")
      case True
      then show ?thesis using A by simp
    next
      case False
      then have "connectionPromises s k = Some q" using A by simp
      then obtain op where op: "pendingConnects s q = Some op" "ident (op_wallet op) = k"
        using T unfolding table_ok_def by blast
      then have "q \<noteq> nextPromise s" using fresh by auto
      then show ?thesis using op by simp
    qed
  qed
  moreover have "ops_ok ?s'"
    unfolding ops_ok_def
  proof (intro allI impI)
    fix q op assume A: "pendingConnects ?s' q = Some op"
    show "connectionPromises ?s' (ident (op_wallet op)) = Some q \<and> q < nextPromise ?s' \<and>
        distinct (participants op) \<and> (\<forall>c \<in> set (participants op). connecting (conns ?s' c))"
    proof (cases "q = nextPromise s")
      case True
      then have "op = \<lparr>op_wallet = w, op_this = c, op_awaiting = []\<rparr>" using A by simp
      then show ?thesis using True by (simp add: participants_def)
    next
      case False
      then have P: "pendingConnects s q = Some op" using A by simp
      then have old: "connectionPromises s (ident (op_wallet op)) = Some q" "q < nextPromise s"
        "distinct (participants op)" "\<forall>c \<in> set (participants op). connecting (conns s c)"
        using O unfolding ops_ok_def by blast+
      have "ident (op_wallet op) \<noteq> ident w" using nokey P by blast
      moreover have "c \<notin> set (participants op)" using np P by blast
      ultimately show ?thesis using old by auto
    qed
  qed
  moreover have "ops_disjoint ?s'"
    unfolding ops_disjoint_def
  proof (intro allI impI)
    fix q q' op1 op2
    assume A: "pendingConnects ?s' q = Some op1" "pendingConnects ?s' q' = Some op2" "q \<noteq> q'"
    have new: "\<And>x op. pendingConnects ?s' x = Some op \<Longrightarrow> x = nextPromise s \<Longrightarrow> participants op = [c]"
      by (auto simp: participants_def)
    have old: "\<And>x op. pendingConnects ?s' x = Some op \<Longrightarrow> x \<noteq> nextPromise s \<Longrightarrow>
        pendingConnects s x = Some op \<and> c \<notin> set (participants op)"
      using np by auto
    show "set (participants op1) \<inter> set (participants op2) = {}"
    proof (cases "q = nextPromise s")
      case True
      then have "q' \<noteq> nextPromise s" using A(3) by simp
      then show ?thesis using new[OF A(1) True] old[OF A(2)] by simp
    next
      case False
      note F = this
      show ?thesis
      proof (cases "q' = nextPromise s")
        case True
        then show ?thesis using new[OF A(2) True] old[OF A(1) F] by simp
      next
        case False
        then show ?thesis using old[OF A(1) F] old[OF A(2) False] D A(3)
          unfolding ops_disjoint_def by blast
      qed
    qed
  qed
  ultimately show ?thesis by (simp add: sys_inv_def)
qed

lemma inv_connect:
  assumes "sys_inv s"
  shows "sys_inv (fst (connect c w s))"
proof (cases "connecting (conns s c)")
  case True
  then show ?thesis using assms by (simp add: connect_busy)
next
  case False
  note idle = this
  show ?thesis
  proof (cases "connectionPromises s (ident w)")
    case (Some p)
    then show ?thesis using inv_connect_existing[OF assms idle] connect_existing[OF idle Some] by simp
  next
    case None
    show ?thesis
    proof (cases "StandardConnect \<in> set (features w)")
      case True
      then show ?thesis
        using inv_connect_invoke[OF assms idle None] connect_invoke[OF idle None True] by simp
    next
      case False
      have "upd_conn c connect_finally (upd_conn c connect_begin s) = upd_conn c (\<lambda>this. connect_finally (connect_begin this)) s"
        by (simp add: upd_conn_def)
      then show ?thesis
        using inv_upd_idle[OF assms idle] connect_no_capability[OF idle None False] by simp
    qed
  qed
qed

subsection \<open>settle_connect\<close>

lemma settle_connect_none:
  "pendingConnects s p = None \<Longrightarrow> settle_connect p r s = (s, [])"
  by (simp add: settle_connect_def)

lemma finally_callback_fields [simp]:
  "conns (finally_callback p op s) = conns s"
  "connectionPromises (finally_callback p op s) = (connectionPromises s)(ident (op_wallet op) := None)"
  "pendingConnects (finally_callback p op s) = (pendingConnects s)(p := None)"
  "pendingDisconnects (finally_callback p op s) = pendingDisconnects s"
  "nextPromise (finally_callback p op s) = nextPromise s"
  "connectCalls (finally_callback p op s) = connectCalls s"
  "disconnectCalls (finally_callback p op s) = disconnectCalls s"
  by (simp_all add: finally_callback_def)

lemma conns_then_callback:
  "conns (then_callback op r s) c =
     (if c = op_this op
      then (case r of Fulfilled result \<Rightarrow> connect_then (op_wallet op) result (conns s c)
            | Rejected e \<Rightarrow> conns s c)
      else conns s c)"
  by (simp add: then_callback_def split: settled.splits)

lemma then_callback_fields [simp]:
  "connectionPromises (then_callback op r s) = connectionPromises s"
  "pendingConnects (then_callback op r s) = pendingConnects s"
  "pendingDisconnects (then_callback op r s) = pendingDisconnects s"
  "nextPromise (then_callback op r s) = nextPromise s"
  "connectCalls (then_callback op r s) = connectCalls s"
  "disconnectCalls (then_callback op r s) = disconnectCalls s"
  by (simp_all add: then_callback_def split: settled.splits)

lemma settle_connect_fields:
  assumes "pendingConnects s p = Some op"
  shows "connectionPromises (fst (settle_connect p r s)) = (connectionPromises s)(ident (op_wallet op) := None)"
    and "pendingConnects (fst (settle_connect p r s)) = (pendingConnects s)(p := None)"
    and "pendingDisconnects (fst (settle_connect p r s)) = pendingDisconnects s"
    and "nextPromise (fst (settle_connect p r s)) = nextPromise s"
    and "connectCalls (fst (settle_connect p r s)) = connectCalls s"
    and "disconnectCalls (fst (settle_connect p r s)) = disconnectCalls s"
  using assms by (simp_all add: settle_connect_def Let_def)

lemma settle_connect_conns_other:
  assumes "pendingConnects s p = Some op" "c \<notin> set (participants op)"
  shows "conns (fst (settle_connect p r s)) c = conns s c"
  using assms
  by (simp add: settle_connect_def Let_def participants_def conns_resume_all_other
      conns_then_callback split: settled.splits)

lemma settle_connect_conns_own:
  assumes "pendingConnects s p = Some op" "distinct (participants op)"
  shows "conns (fst (settle_connect p r s)) (op_this op) =
     fst (connect_resume_own r
       (case r of Fulfilled result \<Rightarrow> connect_then (op_wallet op) result (conns s (op_this op))
        | Rejected e \<Rightarrow> conns s (op_this op)))"
  using assms
  by (simp add: settle_connect_def Let_def participants_def conns_resume_all_other
      conns_then_callback split: settled.splits)

lemma conns_resume_all_in:
  assumes "distinct (map fst ws)" "(c, w) \<in> set ws"
  shows "conns (resume_all r ws s) c = fst (connect_resume_existing w r (conns s c))"
  using assms
proof (induction ws arbitrary: s)
  case Nil
  then show ?case by simp
next
  case (Cons x ws)
  obtain c' w' where x: "x = (c', w')" by (cases x)
  show ?case
  proof (cases "(c, w) = x")
    case True
    have "fst x \<notin> fst ` set ws" using Cons.prems(1) by simp
    then have "c \<notin> fst ` set ws" using True[symmetric] by simp
    then show ?thesis using True x by (simp add: conns_resume_all_other)
  next
    case False
    then have in_ws: "(c, w) \<in> set ws" using Cons.prems(2) by simp
    then have "c \<in> fst ` set ws" by force
    then have "c \<noteq> c'" using Cons.prems(1) x by auto
    then show ?thesis using Cons.IH[OF _ in_ws] Cons.prems(1) x by simp
  qed
qed

lemma settle_connect_conns_awaiting:
  assumes "pendingConnects s p = Some op" "distinct (participants op)" "(c, w) \<in> set (op_awaiting op)"
  shows "conns (fst (settle_connect p r s)) c = fst (connect_resume_existing w r (conns s c))"
proof -
  have "c \<in> fst ` set (op_awaiting op)" using assms(3) by force
  moreover have "op_this op \<notin> fst ` set (op_awaiting op)"
    using assms(2) by (simp add: participants_def)
  ultimately have ne: "c \<noteq> op_this op" by blast
  have d: "distinct (map fst (op_awaiting op))"
    using assms(2) by (simp add: participants_def)
  show ?thesis
    using assms(1) ne
    by (simp add: settle_connect_def Let_def conns_resume_all_in[OF d assms(3)]
        conns_then_callback split: settled.splits)
qed

lemma inv_settle_connect:
  assumes inv: "sys_inv s"
  shows "sys_inv (fst (settle_connect p r s))"
proof (cases "pendingConnects s p")
  case None
  then show ?thesis using inv by (simp add: settle_connect_none)
next
  case (Some op)
  let ?s' = "fst (settle_connect p r s)"
  note F = settle_connect_fields[OF Some, of r]
  have T: "table_ok s" and O: "ops_ok s" and D: "ops_disjoint s"
    using inv by (simp_all add: sys_inv_def)
  have key: "connectionPromises s (ident (op_wallet op)) = Some p"
    using O Some unfolding ops_ok_def by blast
  have other: "\<And>q op'. pendingConnects s q = Some op' \<Longrightarrow> q \<noteq> p \<Longrightarrow>
      ident (op_wallet op') \<noteq> ident (op_wallet op) \<and> set (participants op') \<inter> set (participants op) = {}"
  proof -
    fix q op' assume A: "pendingConnects s q = Some op'" "q \<noteq> p"
    have "connectionPromises s (ident (op_wallet op')) = Some q"
      using O A(1) unfolding ops_ok_def by blast
    then have "ident (op_wallet op') \<noteq> ident (op_wallet op)" using key A(2) by auto
    moreover have "set (participants op') \<inter> set (participants op) = {}"
      using D A Some unfolding ops_disjoint_def by blast
    ultimately show "ident (op_wallet op') \<noteq> ident (op_wallet op) \<and>
        set (participants op') \<inter> set (participants op) = {}" by simp
  qed
  have "table_ok ?s'"
    unfolding table_ok_def
  proof (intro allI impI)
    fix k q assume A: "connectionPromises ?s' k = Some q"
    then have k: "k \<noteq> ident (op_wallet op)" "connectionPromises s k = Some q"
      by (auto simp: F split: if_splits)
    then obtain op' where op': "pendingConnects s q = Some op'" "ident (op_wallet op') = k"
      using T unfolding table_ok_def by blast
    then have "q \<noteq> p" using Some k(1) by auto
    then show "\<exists>op. pendingConnects ?s' q = Some op \<and> ident (op_wallet op) = k"
      using op' by (simp add: F)
  qed
  moreover have "ops_ok ?s'"
    unfolding ops_ok_def
  proof (intro allI impI)
    fix q op' assume "pendingConnects ?s' q = Some op'"
    then have A: "q \<noteq> p" "pendingConnects s q = Some op'"
      by (auto simp: F split: if_splits)
    have old: "connectionPromises s (ident (op_wallet op')) = Some q" "q < nextPromise s"
      "distinct (participants op')" "\<forall>c \<in> set (participants op'). connecting (conns s c)"
      using O A(2) unfolding ops_ok_def by blast+
    have "\<forall>c \<in> set (participants op'). conns ?s' c = conns s c"
      using other[OF A(2,1)] settle_connect_conns_other[OF Some] by blast
    then show "connectionPromises ?s' (ident (op_wallet op')) = Some q \<and> q < nextPromise ?s' \<and>
        distinct (participants op') \<and> (\<forall>c \<in> set (participants op'). connecting (conns ?s' c))"
      using old other[OF A(2,1)] by (simp add: F)
  qed
  moreover have "ops_disjoint ?s'"
    using D unfolding ops_disjoint_def by (simp add: F)
  ultimately show ?thesis by (simp add: sys_inv_def)
qed

subsection \<open>disconnect\<close>

lemma inv_disconnect:
  assumes "sys_inv s"
  shows "sys_inv (fst (disconnect c s))"
proof (cases "wallet (conns s c)")
  case None
  then show ?thesis using assms by (simp add: disconnect_def)
next
  case (Some w)
  show ?thesis
  proof (cases "StandardDisconnect \<in> set (features w)")
    case True
    have "sys_inv (s\<lparr>disconnectCalls := disconnectCalls s @ [ident w],
               pendingDisconnects := (pendingDisconnects s)(nextPromise s \<mapsto> c),
               nextPromise := Suc (nextPromise s)\<rparr>)"
      using assms unfolding sys_inv_def table_ok_def ops_ok_def ops_disjoint_def
      by (simp add: less_Suc_eq)
    then show ?thesis using Some True by (simp add: disconnect_def Let_def)
  next
    case False
    then show ?thesis using Some assms
      by (simp add: disconnect_def inv_upd_same_connecting)
  qed
qed

lemma inv_settle_disconnect:
  assumes "sys_inv s"
  shows "sys_inv (fst (settle_disconnect p r s))"
proof (cases "pendingDisconnects s p")
  case None
  then show ?thesis using assms by (simp add: settle_disconnect_def)
next
  case (Some c)
  have "sys_inv (s\<lparr>pendingDisconnects := (pendingDisconnects s)(p := None)\<rparr>)"
    using assms unfolding sys_inv_def table_ok_def ops_ok_def ops_disjoint_def by simp
  then show ?thesis using Some
    by (simp add: settle_disconnect_def Let_def inv_upd_same_connecting)
qed

lemma inv_step: "sys_inv s \<Longrightarrow> sys_inv (fst (step e s))"
  by (cases e) (simp_all add: inv_connect inv_settle_connect inv_disconnect inv_settle_disconnect)

lemma inv_run: "sys_inv s \<Longrightarrow> sys_inv (run es s)"
  by (induction es arbitrary: s) (simp_all add: inv_step)

lemma reachable_inv: "reachable s \<Longrightarrow> sys_inv s"
  unfolding reachable_def using inv_run[OF sys_inv_init] by blast

lemma reachable_run: "reachable (run es init_sys)"
  unfolding reachable_def by blast


lemma in_flight_connect_call:
  assumes "\<not> connecting (conns s c)" "connectionPromises s (ident w) = None"
    "StandardConnect \<in> set (features w)"
  shows "in_flight (nextPromise s) c w (fst (connect c w s))"
    and "connectCalls (fst (connect c w s)) = connectCalls s @ [ident w]"
    and "conns (fst (connect c w s)) c = connect_begin (conns s c)"
  using assms by (simp_all add: connect_invoke in_flight_def)

lemma in_flight_participant:
  assumes "sys_inv s" "in_flight p c w s"
  shows "connecting (conns s c)"
proof -
  obtain op where op: "pendingConnects s p = Some op" "op_this op = c"
    using assms(2) unfolding in_flight_def by blast
  have "\<forall>c \<in> set (participants op). connecting (conns s c)"
    using assms(1) op(1) unfolding sys_inv_def ops_ok_def by blast
  then show ?thesis using op(2) by (simp add: participants_def)
qed

lemma in_flight_connect:
  assumes inv: "sys_inv s" and fl: "in_flight p c w s"
  shows "in_flight p c w (fst (connect c' w' s))
       \<and> count_list (connectCalls (fst (connect c' w' s))) (ident w) = count_list (connectCalls s) (ident w)"
proof (cases "connecting (conns s c')")
  case True
  then show ?thesis using fl by (simp add: connect_busy)
next
  case False
  note idle = this
  obtain op where op: "pendingConnects s p = Some op" "op_this op = c" "op_wallet op = w"
    and key: "connectionPromises s (ident w) = Some p"
    using fl unfolding in_flight_def by blast
  show ?thesis
  proof (cases "connectionPromises s (ident w')")
    case (Some q)
    then show ?thesis using op key
      by (auto simp: connect_existing[OF idle Some] in_flight_def pending_await_existing)
  next
    case None
    then have ne: "ident w' \<noteq> ident w" using key by auto
    have "p < nextPromise s" using inv op(1) unfolding sys_inv_def ops_ok_def by blast
    then have pne: "p \<noteq> nextPromise s" by simp
    show ?thesis
    proof (cases "StandardConnect \<in> set (features w')")
      case True
      then show ?thesis using op key ne pne
        by (simp add: connect_invoke[OF idle None True] in_flight_def)
    next
      case False
      then show ?thesis using op key
        by (simp add: connect_no_capability[OF idle None False] in_flight_def)
    qed
  qed
qed

lemma in_flight_settle_connect:
  assumes inv: "sys_inv s" and fl: "in_flight p c w s" and ne: "q \<noteq> p"
  shows "in_flight p c w (fst (settle_connect q r s))
       \<and> connectCalls (fst (settle_connect q r s)) = connectCalls s"
proof (cases "pendingConnects s q")
  case None
  then show ?thesis using fl by (simp add: settle_connect_none)
next
  case (Some op')
  obtain op where op: "pendingConnects s p = Some op" "op_this op = c" "op_wallet op = w"
    and key: "connectionPromises s (ident w) = Some p"
    using fl unfolding in_flight_def by blast
  have "connectionPromises s (ident (op_wallet op')) = Some q"
    using inv Some unfolding sys_inv_def ops_ok_def by blast
  then have "ident (op_wallet op') \<noteq> ident w" using key ne by auto
  then show ?thesis using op key ne
    by (simp add: settle_connect_fields[OF Some] in_flight_def)
qed

lemma in_flight_disconnect:
  assumes "in_flight p c w s"
  shows "in_flight p c w (fst (disconnect c' s))
       \<and> connectCalls (fst (disconnect c' s)) = connectCalls s"
  using assms by (simp add: disconnect_def in_flight_def Let_def split: option.splits)

lemma in_flight_settle_disconnect:
  assumes "in_flight p c w s"
  shows "in_flight p c w (fst (settle_disconnect q r s))
       \<and> connectCalls (fst (settle_disconnect q r s)) = connectCalls s"
  using assms by (simp add: settle_disconnect_def in_flight_def Let_def split: option.splits)

lemma in_flight_step:
  assumes "sys_inv s" "in_flight p c w s" "\<not> settles p e"
  shows "in_flight p c w (fst (step e s))
       \<and> count_list (connectCalls (fst (step e s))) (ident w) = count_list (connectCalls s) (ident w)"
  using assms
  by (cases e)
    (simp_all add: in_flight_connect in_flight_settle_connect in_flight_disconnect
      in_flight_settle_disconnect)

lemma in_flight_run:
  assumes "sys_inv s" "in_flight p c w s" "\<forall>e \<in> set es. \<not> settles p e"
  shows "in_flight p c w (run es s)
       \<and> count_list (connectCalls (run es s)) (ident w) = count_list (connectCalls s) (ident w)"
  using assms
proof (induction es arbitrary: s)
  case Nil
  then show ?case by simp
next
  case (Cons e es)
  have 1: "in_flight p c w (fst (step e s))"
    and 2: "count_list (connectCalls (fst (step e s))) (ident w) = count_list (connectCalls s) (ident w)"
    using in_flight_step[OF Cons.prems(1,2)] Cons.prems(3) by simp_all
  have "sys_inv (fst (step e s))" using Cons.prems(1) by (rule inv_step)
  from Cons.IH[OF this 1] Cons.prems(3) 2 show ?case by simp
qed



lemma reachable_init: "reachable init_sys"
  using reachable_run[of "[]"] by simp

subsection \<open>A controller with a connect in flight\<close>

lemma connect_other:
  "c \<noteq> c' \<Longrightarrow> conns (fst (connect c' w' s)) c = conns s c"
  by (simp add: connect_def Let_def split: option.splits)

lemma disconnect_other:
  "c \<noteq> c' \<Longrightarrow> conns (fst (disconnect c' s)) c = conns s c"
  by (simp add: disconnect_def Let_def split: option.splits)

lemma unset_pieces:
  "unset this \<Longrightarrow> unset (disconnect_catch e this)"
  "unset (disconnect_clear this)"
  by (simp_all add: unset_def disconnect_catch_def disconnect_clear_def)

lemma unset_settle_disconnect:
  "unset (conns s c) \<Longrightarrow> unset (conns (fst (settle_disconnect q r s)) c)"
  by (simp add: settle_disconnect_def Let_def disconnect_resume_def unset_pieces
      split: option.splits settled.splits)

lemma unset_disconnect:
  "unset (conns s c) \<Longrightarrow> unset (conns (fst (disconnect c' s)) c)"
  by (cases "c = c'") (simp_all add: disconnect_other, simp add: disconnect_def unset_def)

lemma in_flight_other_op:
  assumes "sys_inv s" "in_flight p c w s" "pendingConnects s q = Some op'" "q \<noteq> p"
  shows "c \<notin> set (participants op')"
proof -
  obtain op where op: "pendingConnects s p = Some op" "op_this op = c"
    using assms(2) unfolding in_flight_def by blast
  have "set (participants op) \<inter> set (participants op') = {}"
    using assms(1,3,4) op(1) unfolding sys_inv_def ops_disjoint_def by blast
  moreover have "c \<in> set (participants op)" using op(2) by (simp add: participants_def)
  ultimately show ?thesis by blast
qed

lemma conns_step_in_flight:
  assumes "sys_inv s" "in_flight p c w s" "\<not> settles p e" "unset (conns s c)"
  shows "unset (conns (fst (step e s)) c)"
proof (cases e)
  case (CallConnect c' w')
  show ?thesis
  proof (cases "c = c'")
    case True
    then show ?thesis
      using assms(4) in_flight_participant[OF assms(1,2)] CallConnect by (simp add: connect_busy)
  next
    case False
    then show ?thesis using assms(4) CallConnect by (simp add: connect_other)
  qed
next
  case (CallDisconnect c')
  then show ?thesis using assms(4) by (simp add: unset_disconnect)
next
  case (SettleConnect q r)
  then have ne: "q \<noteq> p" using assms(3) by simp
  show ?thesis
  proof (cases "pendingConnects s q")
    case None
    then show ?thesis using assms(4) SettleConnect by (simp add: settle_connect_none)
  next
    case (Some op')
    then show ?thesis
      using assms(4) SettleConnect
        settle_connect_conns_other[OF Some in_flight_other_op[OF assms(1,2) Some ne]]
      by simp
  qed
next
  case (SettleDisconnect q r)
  then show ?thesis using assms(4) by (simp add: unset_settle_disconnect)
qed

lemma unset_run_in_flight:
  assumes "sys_inv s" "in_flight p c w s" "\<forall>e \<in> set es. \<not> settles p e" "unset (conns s c)"
  shows "unset (conns (run es s) c)"
  using assms
proof (induction es arbitrary: s)
  case Nil
  then show ?case by simp
next
  case (Cons e es)
  have ns: "\<not> settles p e" using Cons.prems(3) by simp
  have 1: "in_flight p c w (fst (step e s))"
    using in_flight_step[OF Cons.prems(1,2) ns] by simp
  have 2: "unset (conns (fst (step e s)) c)"
    using conns_step_in_flight[OF Cons.prems(1,2) ns Cons.prems(4)] .
  have 3: "sys_inv (fst (step e s))" using Cons.prems(1) by (rule inv_step)
  show ?case using Cons.IH[OF 3 1 _ 2] Cons.prems(3) by simp
qed

lemma settle_own_fulfilled:
  assumes "sys_inv s" "in_flight p c w s"
  shows "conns (fst (settle_connect p (Fulfilled result) s)) c =
     (conns s c)\<lparr>wallet := Some w, account := first_account result, connected := True,
       connecting := False\<rparr>"
proof -
  obtain op where op: "pendingConnects s p = Some op" "op_this op = c" "op_wallet op = w"
    using assms(2) unfolding in_flight_def by blast
  have d: "distinct (participants op)"
    using assms(1) op(1) unfolding sys_inv_def ops_ok_def by blast
  show ?thesis
    using settle_connect_conns_own[OF op(1) d, of "Fulfilled result"] op(2,3)
    by (simp add: connect_resume_own_def connect_then_def connect_finally_def)
qed

lemma settle_own_rejected:
  assumes "sys_inv s" "in_flight p c w s"
  shows "conns (fst (settle_connect p (Rejected e) s)) c =
     (conns s c)\<lparr>error := Some e, connecting := False\<rparr>"
proof -
  obtain op where op: "pendingConnects s p = Some op" "op_this op = c" "op_wallet op = w"
    using assms(2) unfolding in_flight_def by blast
  have d: "distinct (participants op)"
    using assms(1) op(1) unfolding sys_inv_def ops_ok_def by blast
  show ?thesis
    using settle_connect_conns_own[OF op(1) d, of "Rejected e"] op(2,3)
    by (simp add: connect_resume_own_def connect_catch_def connect_finally_def)
qed

subsection \<open>What a settlement hands to the suspended callers\<close>

lemma snd_resume [simp]:
  "snd (connect_resume_own r this) = Returned"
  "snd (connect_resume_existing w r this) = Returned"
  "snd (disconnect_resume r' this) = Returned"
  by (simp_all add: connect_resume_own_def connect_resume_existing_def disconnect_resume_def
      split: settled.splits)

lemma settle_connect_results:
  assumes "pendingConnects s p = Some op"
  shows "snd (settle_connect p r s) = map (\<lambda>c. (c, Returned)) (participants op)"
  using assms by (simp add: settle_connect_def Let_def participants_def case_prod_unfold)

lemma settle_connect_rejected_error:
  assumes "sys_inv s" "pendingConnects s p = Some op" "c \<in> set (participants op)"
  shows "error (conns (fst (settle_connect p (Rejected e) s)) c) = Some e"
proof -
  have d: "distinct (participants op)"
    using assms(1,2) unfolding sys_inv_def ops_ok_def by blast
  show ?thesis
  proof (cases "c = op_this op")
    case True
    then show ?thesis
      using settle_connect_conns_own[OF assms(2) d, of "Rejected e"]
      by (simp add: connect_resume_own_def connect_catch_def connect_finally_def)
  next
    case False
    then obtain w where "(c, w) \<in> set (op_awaiting op)"
      using assms(3) by (auto simp: participants_def)
    then show ?thesis
      using settle_connect_conns_awaiting[OF assms(2) d, of c w "Rejected e"]
      by (simp add: connect_resume_existing_def connect_catch_def connect_finally_def)
  qed
qed

lemma busy_pending:
  "pendingConnects busy 2 = Some \<lparr>op_wallet = acme, op_this = 1, op_awaiting = [(2, acme)]\<rparr>"
  "pendingDisconnects busy 1 = Some 0"
  by (simp_all add: busy_def init_sys_def new_WalletConnection_def acme_def connect_def Let_def
      settle_connect_def then_callback_def finally_callback_def upd_conn_def await_existing_def
      connect_begin_def connect_then_def connect_resume_own_def connect_finally_def
      resume_all_def disconnect_def StandardConnect_def StandardDisconnect_def)

subsection \<open>The Provider Collection\<close>

lemma setup_fields [simp]:
  "wallets (setupEventListeners this) = wallets this"
  "disposers (setupEventListeners this) = disposers this"
  "spreads (setupEventListeners this) = spreads this"
  by (simp_all add: setupEventListeners_def)

lemma store_inv_new: "store_inv (new_WalletsStore reg)"
  by (simp add: store_inv_def new_WalletsStore_def get_def setupEventListeners_def)

lemma store_inv_on_registry:
  assumes "store_inv this"
  shows "store_inv (on_registry channel reg this)"
  using assms by (simp add: store_inv_def on_registry_def get_def setupEventListeners_def)

lemma on_change_fields [simp]:
  "elems (wallets (on_change this)) = elems (wallets this)"
  "ref (wallets (on_change this)) = SpreadArray (spreads this)"
  "spreads (on_change this) = Suc (spreads this)"
  "disposers (on_change this) = disposers this"
  "eventDisposers (on_change this) = eventDisposers this"
  by (simp_all add: on_change_def)

lemma on_change_pow:
  "elems (wallets ((on_change ^^ n) this)) = elems (wallets this)"
  "spreads ((on_change ^^ n) this) = spreads this + n"
  "disposers ((on_change ^^ n) this) = disposers this"
  "eventDisposers ((on_change ^^ n) this) = eventDisposers this"
  by (induction n) simp_all

lemma on_change_pow_ref:
  "0 < n \<Longrightarrow> ref (wallets ((on_change ^^ n) this)) = SpreadArray (spreads this + n - 1)"
  by (cases n) (simp_all add: on_change_pow)

lemma store_inv_on_change: "store_inv this \<Longrightarrow> store_inv (on_change this)"
  by (simp add: store_inv_def)

lemma store_inv_emit_change:
  assumes "store_inv this"
  shows "store_inv (emit_change k this)"
proof -
  have "store_inv ((on_change ^^ n) this)" for n
    by (induction n) (simp_all add: assms store_inv_on_change)
  then show ?thesis by (simp add: emit_change_def)
qed

lemma emit_change_elems [simp]: "elems (wallets (emit_change k this)) = elems (wallets this)"
  by (simp add: emit_change_def on_change_pow)

lemma on_registry_live:
  assumes "store_inv this" "channel = ''register'' \<or> channel = ''unregister''"
  shows "wallets (on_registry channel reg this) = get reg"
  using assms by (auto simp: store_inv_def on_registry_def)

lemma world_inv_new: "world_inv (new_world reg)"
  by (simp add: world_inv_def new_world_def store_inv_new)
    (simp add: new_WalletsStore_def get_def)

lemma world_inv_step:
  assumes "world_inv x"
  shows "world_inv (world_step ev x)"
proof -
  obtain reg store where x: "x = (reg, store)" by (cases x)
  have s: "store_inv store" and e: "elems (wallets store) = registered reg"
    using assms x by (simp_all add: world_inv_def)
  show ?thesis
  proof (cases ev)
    case (Register reg')
    then show ?thesis
      using x s by (simp add: world_inv_def store_inv_on_registry on_registry_live get_def)
  next
    case (Unregister reg')
    then show ?thesis
      using x s by (simp add: world_inv_def store_inv_on_registry on_registry_live get_def)
  next
    case (Change k)
    then show ?thesis
      using x s e by (simp add: world_inv_def store_inv_emit_change)
  qed
qed

lemma world_inv_run: "world_inv x \<Longrightarrow> world_inv (world_run evs x)"
  by (induction evs arbitrary: x) (simp_all add: world_inv_step)

subsection \<open>The Identity Cache\<close>

lemma derive_cached:
  "cached c (ident w) = Some u \<Longrightarrow> derivePublicHandle w c = (u, c)"
  by (simp add: derivePublicHandle_def)

lemma derive_caches:
  "cached (snd (derivePublicHandle w c)) (ident w) = Some (fst (derivePublicHandle w c))"
  by (simp add: derivePublicHandle_def Let_def split: option.splits)

lemma derive_keeps:
  "cached c k = Some u \<Longrightarrow> cached (snd (derivePublicHandle w c)) k = Some u"
  by (auto simp: derivePublicHandle_def Let_def split: option.splits)

lemma map_derive_keeps:
  "cached c k = Some u \<Longrightarrow> cached (snd (map_derive ws c)) k = Some u"
proof (induction ws arbitrary: c)
  case Nil
  then show ?case by simp
next
  case (Cons w ws)
  have "cached (snd (derivePublicHandle w c)) k = Some u"
    using Cons.prems by (rule derive_keeps)
  then have "cached (snd (map_derive ws (snd (derivePublicHandle w c)))) k = Some u"
    by (rule Cons.IH)
  then show ?case by (simp add: case_prod_unfold Let_def)
qed

lemma map_derive_cached:
  "\<forall>w \<in> set ws. cached c (ident w) \<noteq> None \<Longrightarrow>
     map_derive ws c = (map (\<lambda>w. the (cached c (ident w))) ws, c)"
  by (induction ws) (auto simp: derive_cached)

lemma map_derive_result:
  "fst (map_derive ws c) = map (\<lambda>w. the (cached (snd (map_derive ws c)) (ident w))) ws"
proof (induction ws arbitrary: c)
  case Nil
  then show ?case by simp
next
  case (Cons w ws)
  let ?c1 = "snd (derivePublicHandle w c)"
  have "cached ?c1 (ident w) = Some (fst (derivePublicHandle w c))" by (rule derive_caches)
  then have "cached (snd (map_derive ws ?c1)) (ident w) = Some (fst (derivePublicHandle w c))"
    by (rule map_derive_keeps)
  then show ?case using Cons.IH[of ?c1] by (simp add: case_prod_unfold Let_def)
qed

lemma map_derive_all_cached:
  "\<forall>w \<in> set ws. cached (snd (map_derive ws c)) (ident w) \<noteq> None"
proof (induction ws arbitrary: c)
  case Nil
  then show ?case by simp
next
  case (Cons w ws)
  let ?c1 = "snd (derivePublicHandle w c)"
  have "cached ?c1 (ident w) = Some (fst (derivePublicHandle w c))" by (rule derive_caches)
  then have "cached (snd (map_derive ws ?c1)) (ident w) = Some (fst (derivePublicHandle w c))"
    by (rule map_derive_keeps)
  then show ?case using Cons.IH[of ?c1] by (simp add: case_prod_unfold Let_def)
qed

lemma map_derive_twice:
  "fst (map_derive ws (snd (map_derive ws c))) = fst (map_derive ws c)"
  using map_derive_cached[OF map_derive_all_cached, of ws c] map_derive_result[of ws c]
  by simp

subsection \<open>The per-wallet helpers\<close>

lemma errors_differ: "capability_not_found f \<noteq> not_found_error n"
  by (simp add: capability_not_found_def not_found_error_def)

subsection \<open>A caller that adopted a pending promise\<close>







text \<open>The definitions a concrete run unfolds.\<close>

lemmas eval_defs = init_sys_def new_WalletConnection_def acme_def acme_events_def connect_def Let_def
      settle_connect_def then_callback_def finally_callback_def upd_conn_def await_existing_def
      connect_begin_def connect_then_def connect_adopt_def connect_catch_def
      connect_resume_own_def connect_resume_existing_def connect_finally_def
      resume_all_def StandardConnect_def StandardDisconnect_def StandardEvents_def

section \<open>Claims about WalletConnection\<close>

text \<open>
  Claim C1, as stated, fails: after a successful connect, a \<^verbatim>\<open>disconnect\<close> whose
  capability rejects leaves \<open>wallet\<close>, \<open>account\<close> and \<open>connected\<close> as they were. The
  assignments that clear them follow the \<^verbatim>\<open>await\<close> inside the \<^verbatim>\<open>try\<close> block, and the
  \<^verbatim>\<open>catch\<close> block only stores the cause.
\<close>

theorem disconnect_rejected_counterexample:
  "wallet (conns (run [CallConnect 0 acme, SettleConnect 0 (Fulfilled [''0xAB'']),
       CallDisconnect 0, SettleDisconnect 1 (Rejected ''Disconnect failed'')] init_sys) 0) = Some acme
   \<and> account (conns (run [CallConnect 0 acme, SettleConnect 0 (Fulfilled [''0xAB'']),
       CallDisconnect 0, SettleDisconnect 1 (Rejected ''Disconnect failed'')] init_sys) 0) = Some ''0xAB''
   \<and> connected (conns (run [CallConnect 0 acme, SettleConnect 0 (Fulfilled [''0xAB'']),
       CallDisconnect 0, SettleDisconnect 1 (Rejected ''Disconnect failed'')] init_sys) 0)
   \<and> error (conns (run [CallConnect 0 acme, SettleConnect 0 (Fulfilled [''0xAB'']),
       CallDisconnect 0, SettleDisconnect 1 (Rejected ''Disconnect failed'')] init_sys) 0)
       = Some ''Disconnect failed''"
  by (simp add: init_sys_def new_WalletConnection_def acme_def connect_def Let_def
      settle_connect_def then_callback_def finally_callback_def upd_conn_def
      connect_begin_def connect_then_def connect_resume_own_def connect_finally_def
      resume_all_def disconnect_def settle_disconnect_def disconnect_resume_def
      disconnect_catch_def StandardConnect_def StandardDisconnect_def)

text \<open>
  Claim C1, amended. On a connected controller whose wallet has the disconnect
  capability, \<^verbatim>\<open>disconnect\<close> invokes the capability, and when that rejects the only
  field written is \<open>error\<close>, which holds the cause: \<open>wallet\<close>, \<open>account\<close> and
  \<open>connected\<close> keep their values, and the call itself returns normally.
\<close>

theorem disconnect_rejected:
  assumes "wallet (conns s c) = Some w" and "StandardDisconnect \<in> set (features w)"
  shows "conns (run [CallDisconnect c, SettleDisconnect (nextPromise s) (Rejected e)] s) c
           = (conns s c)\<lparr>error := Some e\<rparr>
       \<and> disconnectCalls (fst (step (CallDisconnect c) s)) = disconnectCalls s @ [ident w]
       \<and> snd (step (SettleDisconnect (nextPromise s) (Rejected e)) (fst (step (CallDisconnect c) s)))
           = [(c, Returned)]"
  using assms
  by (simp add: disconnect_def settle_disconnect_def Let_def disconnect_resume_def
      disconnect_catch_def)

theorem disconnect_rejected_witness:
  "wallet (conns (run [CallConnect 0 acme, SettleConnect 0 (Fulfilled [''0xAB''])] init_sys) 0) = Some acme
   \<and> StandardDisconnect \<in> set (features acme)
   \<and> conns (run [CallDisconnect 0, SettleDisconnect 1 (Rejected ''Disconnect failed'')]
        (run [CallConnect 0 acme, SettleConnect 0 (Fulfilled [''0xAB''])] init_sys)) 0
      = \<lparr>wallet = Some acme, account = Some ''0xAB'', connecting = False, connected = True,
         error = Some ''Disconnect failed''\<rparr>"
proof -
  let ?s = "run [CallConnect 0 acme, SettleConnect 0 (Fulfilled [''0xAB''])] init_sys"
  have c: "conns ?s 0 = \<lparr>wallet = Some acme, account = Some ''0xAB'', connecting = False,
      connected = True, error = None\<rparr>" and n: "nextPromise ?s = 1"
    by (simp_all add: init_sys_def new_WalletConnection_def acme_def connect_def Let_def
      settle_connect_def then_callback_def finally_callback_def upd_conn_def
      connect_begin_def connect_then_def connect_resume_own_def connect_finally_def
      resume_all_def StandardConnect_def StandardDisconnect_def)
  have h: "wallet (conns ?s 0) = Some acme" "StandardDisconnect \<in> set (features acme)"
    unfolding c by (simp_all add: acme_def)
  note D = disconnect_rejected[OF h, of "''Disconnect failed''", THEN conjunct1, unfolded n c]
  show ?thesis using D h by simp
qed




text \<open>
  Claim C3, as stated, fails in its rejection half for a controller that is connected
  when it calls \<^verbatim>\<open>connect\<close>: the call is not guarded by \<open>connected\<close>, it reaches the
  capability invocation, and after the rejection \<open>wallet\<close>, \<open>account\<close> and
  \<open>connected\<close> still hold the earlier connection, next to the new \<open>error\<close>.
\<close>

theorem connect_rejected_connected_counterexample:
  "\<not> connecting (conns connected0 0)
   \<and> connectionPromises connected0 (ident acme_events) = None
   \<and> StandardConnect \<in> set (features acme_events)
   \<and> conns (run [CallConnect 0 acme_events, SettleConnect 1 (Rejected ''Connection failed'')]
        connected0) 0
      = \<lparr>wallet = Some acme, account = Some ''0xAB'', connecting = False, connected = True,
         error = Some ''Connection failed''\<rparr>
   \<and> connectCalls (run [CallConnect 0 acme_events] connected0) = [0, 2]"
  by (simp add: connected0_def eval_defs)

text \<open>
  Claim C3, amended. A \<^verbatim>\<open>connect\<close> call that reaches the capability invocation (the
  controller is not connecting, the wallet has no table entry and has the connect
  capability), and whose promise settles after any other events. If the promise is
  fulfilled, the controller has \<open>wallet\<close> set to the wallet of the call, \<open>account\<close>
  set to the first returned account (\<open>None\<close> for an empty list), \<open>connected\<close> true and
  \<open>connecting\<close> false. If it is rejected, \<open>error\<close> holds the cause, \<open>connecting\<close> is
  false, and \<open>wallet\<close>, \<open>account\<close> and \<open>connected\<close> are not written: a controller that
  had them unset at the call still has them unset, and a connected controller keeps the
  earlier connection. The last two conjuncts give the whole controller state when the
  settlement follows the call directly.
\<close>

theorem connect_outcome:
  assumes "reachable s" and "\<not> connecting (conns s c)"
    and "connectionPromises s (ident w) = None"
    and "StandardConnect \<in> set (features w)"
    and "\<forall>ev \<in> set es. \<not> settles (nextPromise s) ev"
  shows "conns (fst (step (SettleConnect (nextPromise s) (Fulfilled result))
            (run (CallConnect c w # es) s))) c
          = (conns (run (CallConnect c w # es) s) c)\<lparr>wallet := Some w,
              account := first_account result, connected := True, connecting := False\<rparr>
       \<and> conns (fst (step (SettleConnect (nextPromise s) (Rejected e))
            (run (CallConnect c w # es) s))) c
          = (conns (run (CallConnect c w # es) s) c)\<lparr>error := Some e, connecting := False\<rparr>
       \<and> (unset (conns s c) \<longrightarrow>
            unset (conns (fst (step (SettleConnect (nextPromise s) (Rejected e))
              (run (CallConnect c w # es) s))) c))
       \<and> conns (run [CallConnect c w, SettleConnect (nextPromise s) (Fulfilled result)] s) c
          = (conns s c)\<lparr>wallet := Some w, account := first_account result, connected := True,
              connecting := False, error := None\<rparr>
       \<and> conns (run [CallConnect c w, SettleConnect (nextPromise s) (Rejected e)] s) c
          = (conns s c)\<lparr>error := Some e\<rparr>"
proof -
  let ?p = "nextPromise s"
  let ?s0 = "fst (connect c w s)"
  let ?s1 = "run (CallConnect c w # es) s"
  have inv0: "sys_inv ?s0" using assms(1) by (simp add: reachable_inv inv_connect)
  note call = in_flight_connect_call[OF assms(2,3,4)]
  have s1: "?s1 = run es ?s0" by simp
  have fl: "in_flight ?p c w ?s1"
    using in_flight_run[OF inv0 call(1) assms(5)] by simp
  have inv1: "sys_inv ?s1" unfolding s1 using inv0 by (rule inv_run)
  have ok: "conns (fst (step (SettleConnect ?p (Fulfilled result)) ?s1)) c
          = (conns ?s1 c)\<lparr>wallet := Some w, account := first_account result, connected := True,
              connecting := False\<rparr>"
    using settle_own_fulfilled[OF inv1 fl] by simp
  have ko: "conns (fst (step (SettleConnect ?p (Rejected e)) ?s1)) c
          = (conns ?s1 c)\<lparr>error := Some e, connecting := False\<rparr>"
    using settle_own_rejected[OF inv1 fl] by simp
  have un: "unset (conns s c) \<longrightarrow> unset (conns (fst (step (SettleConnect ?p (Rejected e)) ?s1)) c)"
  proof
    assume "unset (conns s c)"
    then have "unset (conns ?s0 c)" by (simp add: call(3) unset_def connect_begin_def)
    then have "unset (conns ?s1 c)"
      unfolding s1 using unset_run_in_flight[OF inv0 call(1) assms(5)] by blast
    then show "unset (conns (fst (step (SettleConnect ?p (Rejected e)) ?s1)) c)"
      unfolding ko by (simp add: unset_def)
  qed
  have d1: "conns (run [CallConnect c w, SettleConnect ?p (Fulfilled result)] s) c
          = (conns s c)\<lparr>wallet := Some w, account := first_account result, connected := True,
              connecting := False, error := None\<rparr>"
    using settle_own_fulfilled[OF inv0 call(1)] by (simp add: call(3) connect_begin_def)
  have d2: "conns (run [CallConnect c w, SettleConnect ?p (Rejected e)] s) c
          = (conns s c)\<lparr>error := Some e\<rparr>"
    using settle_own_rejected[OF inv0 call(1)] assms(2) by (simp add: call(3) connect_begin_def)
  show ?thesis using ok ko un d1 d2 by blast
qed

theorem connect_outcome_witness:
  "reachable init_sys \<and> \<not> connecting (conns init_sys 0) \<and>
   connectionPromises init_sys (ident acme) = None \<and>
   StandardConnect \<in> set (features acme) \<and>
   unset (conns init_sys 0) \<and>
   conns (run [CallConnect 0 acme, SettleConnect 0 (Fulfilled [''0xAB'', ''0xCD''])] init_sys) 0
     = \<lparr>wallet = Some acme, account = Some ''0xAB'', connecting = False, connected = True,
        error = None\<rparr> \<and>
   conns (run [CallConnect 0 acme, SettleConnect 0 (Fulfilled [])] init_sys) 0
     = \<lparr>wallet = Some acme, account = None, connecting = False, connected = True,
        error = None\<rparr> \<and>
   conns (run [CallConnect 0 acme, SettleConnect 0 (Rejected ''Connection failed'')] init_sys) 0
     = \<lparr>wallet = None, account = None, connecting = False, connected = False,
        error = Some ''Connection failed''\<rparr> \<and>
   unset (conns (fst (step (SettleConnect 0 (Rejected ''Connection failed''))
      (run [CallConnect 0 acme, CallConnect 1 acme, CallDisconnect 0] init_sys))) 0) \<and>
   reachable connected0 \<and>
   conns (run [CallConnect 0 acme_events, SettleConnect 1 (Rejected ''Connection failed'')]
      connected0) 0
     = \<lparr>wallet = Some acme, account = Some ''0xAB'', connecting = False, connected = True,
        error = Some ''Connection failed''\<rparr>"
proof -
  have h: "\<not> connecting (conns init_sys 0)" "connectionPromises init_sys (ident acme) = None"
    "StandardConnect \<in> set (features acme)"
    by (simp_all add: init_sys_def new_WalletConnection_def acme_def)
  have h5: "\<forall>ev \<in> set [CallConnect 1 acme, CallDisconnect 0]. \<not> settles (nextPromise init_sys) ev"
    and h0: "\<forall>ev \<in> set []. \<not> settles (nextPromise init_sys) ev"
    by simp_all
  have u: "unset (conns init_sys 0)"
    by (simp add: init_sys_def new_WalletConnection_def unset_def)
  have z: "nextPromise init_sys = 0" "conns init_sys 0 = new_WalletConnection"
    by (simp_all add: init_sys_def)
  note A = connect_outcome[OF reachable_init h h0, of "[''0xAB'', ''0xCD'']" "''Connection failed''"]
  note B = connect_outcome[OF reachable_init h h0, of "[]" "''Connection failed''"]
  note C = connect_outcome[OF reachable_init h h5, of "[]" "''Connection failed''"]
  note A4 = A[unfolded z, THEN conjunct2, THEN conjunct2, THEN conjunct2, THEN conjunct1]
  note A5 = A[unfolded z, THEN conjunct2, THEN conjunct2, THEN conjunct2, THEN conjunct2]
  note B4 = B[unfolded z, THEN conjunct2, THEN conjunct2, THEN conjunct2, THEN conjunct1]
  have a: "conns (run [CallConnect 0 acme, SettleConnect 0 (Fulfilled [''0xAB'', ''0xCD''])] init_sys) 0
     = \<lparr>wallet = Some acme, account = Some ''0xAB'', connecting = False, connected = True,
        error = None\<rparr>"
    using A4 by (simp add: new_WalletConnection_def)
  have r: "conns (run [CallConnect 0 acme, SettleConnect 0 (Rejected ''Connection failed'')] init_sys) 0
     = \<lparr>wallet = None, account = None, connecting = False, connected = False,
        error = Some ''Connection failed''\<rparr>"
    using A5 by (simp add: new_WalletConnection_def)
  have b: "conns (run [CallConnect 0 acme, SettleConnect 0 (Fulfilled [])] init_sys) 0
     = \<lparr>wallet = Some acme, account = None, connecting = False, connected = True,
        error = None\<rparr>"
    using B4 by (simp add: new_WalletConnection_def)
  have c: "unset (conns (fst (step (SettleConnect 0 (Rejected ''Connection failed''))
      (run [CallConnect 0 acme, CallConnect 1 acme, CallDisconnect 0] init_sys))) 0)"
    using C u unfolding z(1) by blast
  have rc: "reachable connected0" unfolding connected0_def by (rule reachable_run)
  have hc: "\<not> connecting (conns connected0 0)"
    "connectionPromises connected0 (ident acme_events) = None"
    "StandardConnect \<in> set (features acme_events)"
    by (simp_all add: connected0_def eval_defs)
  have h0c: "\<forall>ev \<in> set []. \<not> settles (nextPromise connected0) ev" by simp
  have zc: "nextPromise connected0 = 1"
    and cc: "conns connected0 0 = \<lparr>wallet = Some acme, account = Some ''0xAB'',
      connecting = False, connected = True, error = None\<rparr>"
    by (simp_all add: connected0_def eval_defs)
  note K = connect_outcome[OF rc hc h0c, of "[]" "''Connection failed''", unfolded zc,
      THEN conjunct2, THEN conjunct2, THEN conjunct2, THEN conjunct2, unfolded cc]
  have k: "conns (run [CallConnect 0 acme_events, SettleConnect 1 (Rejected ''Connection failed'')]
      connected0) 0
     = \<lparr>wallet = Some acme, account = Some ''0xAB'', connecting = False, connected = True,
        error = Some ''Connection failed''\<rparr>"
    using K by simp
  show ?thesis
    using a b r c u h reachable_init rc k by blast
qed

text \<open>
  Claim C4. \<^verbatim>\<open>connect\<close> on an idle controller, with a wallet that lacks the connect
  capability and has no table entry: the call returns at once, the controller is idle
  again (\<open>error\<close> null, not connected, not connecting), no capability was invoked and
  nothing is left pending.
\<close>

theorem connect_without_capability:
  assumes "Idle (conns s c)" and "connectionPromises s (ident w) = None"
    and "StandardConnect \<notin> set (features w)"
  shows "Idle (conns (fst (step (CallConnect c w) s)) c)
       \<and> snd (step (CallConnect c w) s) = [(c, Returned)]
       \<and> connectCalls (fst (step (CallConnect c w) s)) = connectCalls s
       \<and> disconnectCalls (fst (step (CallConnect c w) s)) = disconnectCalls s
       \<and> pendingConnects (fst (step (CallConnect c w) s)) = pendingConnects s
       \<and> pendingDisconnects (fst (step (CallConnect c w) s)) = pendingDisconnects s
       \<and> connectionPromises (fst (step (CallConnect c w) s)) = connectionPromises s"
proof -
  have idle: "\<not> connecting (conns s c)" using assms(1) by (simp add: Idle_def)
  show ?thesis
    using assms(1)
    by (simp add: connect_no_capability[OF idle assms(2,3)] Idle_def unset_def
        connect_begin_def connect_finally_def)
qed

theorem connect_without_capability_witness:
  "Idle (conns init_sys 0) \<and> connectionPromises init_sys (ident basic) = None \<and>
   StandardConnect \<notin> set (features basic) \<and>
   Idle (conns (fst (step (CallConnect 0 basic) init_sys)) 0) \<and>
   snd (step (CallConnect 0 basic) init_sys) = [(0, Returned)] \<and>
   connectCalls (fst (step (CallConnect 0 basic) init_sys)) = []"
proof -
  have h: "Idle (conns init_sys 0)" "connectionPromises init_sys (ident basic) = None"
    "StandardConnect \<notin> set (features basic)"
    by (simp_all add: init_sys_def new_WalletConnection_def basic_def Idle_def unset_def)
  have z: "connectCalls init_sys = []" by (simp add: init_sys_def)
  show ?thesis using connect_without_capability[OF h] h unfolding z by blast
qed

text \<open>
  Claim C10. Every operation of \<^verbatim>\<open>WalletConnection\<close> keeps, on every controller,
  \<open>connected\<close> true exactly when \<open>wallet\<close> is non-null, and \<open>account\<close> non-null only
  when \<open>wallet\<close> is non-null. The operations are the events of the loop: a \<^verbatim>\<open>connect\<close>
  call (returning early while connecting, adopting a pending promise, invoking the
  capability, or finding no capability), a \<^verbatim>\<open>disconnect\<close> call, and the settlement,
  fulfilled or rejected, of a pending connect or disconnect.
\<close>

theorem step_preserves_conn_ok:
  assumes "\<forall>c. conn_ok (conns s c)"
  shows "\<forall>c. conn_ok (conns (fst (step e s)) c)"
  using assms
  by (cases e)
    (simp_all add: conn_ok_connect conn_ok_settle_connect conn_ok_disconnect
      conn_ok_settle_disconnect)

theorem step_preserves_conn_ok_witness:
  "(\<forall>c. conn_ok (conns (run [CallConnect 0 acme] init_sys) c)) \<and>
   (\<forall>c. conn_ok (conns (fst (step (SettleConnect 0 (Fulfilled [''0xAB'']))
      (run [CallConnect 0 acme] init_sys))) c))"
proof -
  have h: "\<forall>c. conn_ok (conns (run [CallConnect 0 acme] init_sys) c)"
    by (simp add: connect_def init_sys_def new_WalletConnection_def conn_ok_def acme_def
        StandardConnect_def StandardDisconnect_def connect_begin_def Let_def)
  show ?thesis using h step_preserves_conn_ok[OF h] by blast
qed

section \<open>Claims about the per-wallet helpers\<close>

text \<open>
  Claim C5, as stated, fails for a controller with a connect of its own in flight:
  \<^verbatim>\<open>connect\<close> first tests \<^verbatim>\<open>this.connectionPromise\<close> and hands the pending promise back
  without consulting the registry. Here the first call found Acme registered, and the
  second call finds the registry empty: it gets the pending promise, and \<open>connecting\<close>
  stays true.
\<close>

theorem ui_connect_in_flight_counterexample:
  "ui_connect derive0 [] 1 (fst (ui_connect derive0 [acme] 0 (new_UiWalletConnect acme_ui)))
     = (\<lparr>uc_connecting = True, uc_error = None, uc_connectionPromise = Some 0,
         uc_uiWallet = acme_ui\<rparr>, Pending 0)"
  by (simp add: ui_connect_def new_UiWalletConnect_def acme_def acme_ui_def derive0_def
      derivePublicHandle_def empty_cache_def getWalletFeature_def StandardConnect_def
      StandardDisconnect_def Let_def)

text \<open>
  Claim C5, amended. On a \<^verbatim>\<open>UiWalletConnect\<close> with no connect of its own in flight,
  whose handle's name is the name of no provider in the registry's current snapshot,
  \<^verbatim>\<open>connect\<close> rejects with the not-found error, stores that error in \<open>error\<close> and
  leaves \<open>connecting\<close> false. The providers are compared by name only: when some
  provider of the snapshot has the handle's name, whatever its identity, the call does
  not end with the not-found error.
\<close>

theorem ui_connect_not_found:
  assumes "uc_connectionPromise this = None"
  shows "((\<forall>w \<in> set globalWallets. name w \<noteq> ui_name (uc_uiWallet this)) \<longrightarrow>
            ui_connect getOrCreateUiWallet globalWallets p this
              = (this\<lparr>uc_connecting := False,
                      uc_error := Some (not_found_error (ui_name (uc_uiWallet this)))\<rparr>,
                 Settled (Rejected (not_found_error (ui_name (uc_uiWallet this))))))
       \<and> ((\<exists>w \<in> set globalWallets. name w = ui_name (uc_uiWallet this)) \<longrightarrow>
            snd (ui_connect getOrCreateUiWallet globalWallets p this)
              \<noteq> Settled (Rejected (not_found_error (ui_name (uc_uiWallet this)))))"
proof (intro conjI impI)
  assume "\<forall>w \<in> set globalWallets. name w \<noteq> ui_name (uc_uiWallet this)"
  then have "find (\<lambda>w. name w = ui_name (uc_uiWallet this)) globalWallets = None"
    by (simp add: find_None_iff)
  then show "ui_connect getOrCreateUiWallet globalWallets p this
              = (this\<lparr>uc_connecting := False,
                      uc_error := Some (not_found_error (ui_name (uc_uiWallet this)))\<rparr>,
                 Settled (Rejected (not_found_error (ui_name (uc_uiWallet this)))))"
    using assms by (simp add: ui_connect_def Let_def)
next
  assume "\<exists>w \<in> set globalWallets. name w = ui_name (uc_uiWallet this)"
  then have "find (\<lambda>w. name w = ui_name (uc_uiWallet this)) globalWallets \<noteq> None"
    by (auto simp: find_None_iff)
  then obtain m where "find (\<lambda>w. name w = ui_name (uc_uiWallet this)) globalWallets = Some m"
    by blast
  then show "snd (ui_connect getOrCreateUiWallet globalWallets p this)
              \<noteq> Settled (Rejected (not_found_error (ui_name (uc_uiWallet this))))"
    using assms
    by (auto simp: ui_connect_def Let_def getWalletFeature_def errors_differ split: sum.splits)
qed

theorem ui_connect_not_found_witness:
  "uc_connectionPromise (new_UiWalletConnect acme_ui) = None \<and>
   list_all (\<lambda>w. name w \<noteq> ui_name (uc_uiWallet (new_UiWalletConnect acme_ui))) [basic] \<and>
   ui_connect derive0 [basic] 0 (new_UiWalletConnect acme_ui)
     = (\<lparr>uc_connecting = False, uc_error = Some (not_found_error ''Acme''),
         uc_connectionPromise = None, uc_uiWallet = acme_ui\<rparr>,
        Settled (Rejected (not_found_error ''Acme''))) \<and>
   name acme_events = ui_name (uc_uiWallet (new_UiWalletConnect acme_ui)) \<and>
   snd (ui_connect derive0 [basic, acme_events] 0 (new_UiWalletConnect acme_ui))
     \<noteq> Settled (Rejected (not_found_error ''Acme''))"
proof -
  have h: "uc_connectionPromise (new_UiWalletConnect acme_ui) = None"
    by (simp add: new_UiWalletConnect_def)
  have n: "ui_name (uc_uiWallet (new_UiWalletConnect acme_ui)) = ''Acme''"
    by (simp add: new_UiWalletConnect_def acme_ui_def)
  have a: "\<forall>w \<in> set [basic]. name w \<noteq> ui_name (uc_uiWallet (new_UiWalletConnect acme_ui))"
    unfolding n by (simp add: basic_def)
  have b: "\<exists>w \<in> set [basic, acme_events].
      name w = ui_name (uc_uiWallet (new_UiWalletConnect acme_ui))"
    unfolding n by (simp add: acme_events_def)
  have 1: "ui_connect derive0 [basic] 0 (new_UiWalletConnect acme_ui)
     = ((new_UiWalletConnect acme_ui)\<lparr>uc_connecting := False,
           uc_error := Some (not_found_error ''Acme'')\<rparr>,
        Settled (Rejected (not_found_error ''Acme'')))"
    using ui_connect_not_found[OF h, of "[basic]" derive0 0] a unfolding n by blast
  have 2: "snd (ui_connect derive0 [basic, acme_events] 0 (new_UiWalletConnect acme_ui))
     \<noteq> Settled (Rejected (not_found_error ''Acme''))"
    using ui_connect_not_found[OF h, of "[basic, acme_events]" derive0 0] b unfolding n by blast
  show ?thesis
    using 1 2 h a unfolding n by (simp add: new_UiWalletConnect_def acme_events_def basic_def)
qed

text \<open>
  Claim C6, as stated, fails for \<^verbatim>\<open>WalletConnection\<close>: its \<^verbatim>\<open>catch\<close> blocks store the
  cause and do not rethrow, so a \<^verbatim>\<open>connect\<close> whose capability rejects returns normally
  to its caller.
\<close>

theorem connect_rejection_swallowed_counterexample:
  "snd (step (SettleConnect 0 (Rejected ''Connection failed'')) (run [CallConnect 0 acme] init_sys))
     = [(0, Returned)]"
  by (simp add: init_sys_def new_WalletConnection_def acme_def connect_def Let_def
      settle_connect_def connect_resume_own_def StandardConnect_def)

text \<open>
  Claim C6, amended. When the capability invocation rejects, the cause is stored in
  the \<open>error\<close> field of every controller waiting for it. On \<^verbatim>\<open>WalletConnection\<close>
  (\<^verbatim>\<open>connect\<close>, for the invoking caller and for every adopter, and \<^verbatim>\<open>disconnect\<close>) the
  call itself returns normally; on \<^verbatim>\<open>UiWalletConnect\<close>, \<^verbatim>\<open>UiWalletDisconnect\<close>,
  \<^verbatim>\<open>WalletConnect\<close> and \<^verbatim>\<open>WalletDisconnect\<close> the promise handed to the caller rejects
  with the same cause.
\<close>

theorem rejection_propagation:
  "(reachable s \<longrightarrow> pendingConnects s p = Some op \<longrightarrow>
      snd (step (SettleConnect p (Rejected e)) s) = map (\<lambda>c. (c, Returned)) (participants op)
      \<and> (\<forall>c \<in> set (participants op).
            error (conns (fst (step (SettleConnect p (Rejected e)) s)) c) = Some e))
   \<and> (pendingDisconnects s q = Some c \<longrightarrow>
      snd (step (SettleDisconnect q (Rejected e)) s) = [(c, Returned)]
      \<and> error (conns (fst (step (SettleDisconnect q (Rejected e)) s)) c) = Some e)
   \<and> snd (ui_connect_settle (Rejected e) uc) = Rejected e
   \<and> uc_error (fst (ui_connect_settle (Rejected e) uc)) = Some e
   \<and> snd (ui_disconnect_settle (Rejected e) ud) = Rejected e
   \<and> ud_error (fst (ui_disconnect_settle (Rejected e) ud)) = Some e
   \<and> snd (wallet_connect_settle (Rejected e) wc) = Rejected e
   \<and> wc_error (fst (wallet_connect_settle (Rejected e) wc)) = Some e
   \<and> snd (wallet_disconnect_settle (Rejected e) wd) = Rejected e
   \<and> wd_error (fst (wallet_disconnect_settle (Rejected e) wd)) = Some e"
proof -
  have 1: "reachable s \<longrightarrow> pendingConnects s p = Some op \<longrightarrow>
      snd (step (SettleConnect p (Rejected e)) s) = map (\<lambda>c. (c, Returned)) (participants op)
      \<and> (\<forall>c \<in> set (participants op).
            error (conns (fst (step (SettleConnect p (Rejected e)) s)) c) = Some e)"
    using settle_connect_results settle_connect_rejected_error reachable_inv by simp
  have 2: "pendingDisconnects s q = Some c \<longrightarrow>
      snd (step (SettleDisconnect q (Rejected e)) s) = [(c, Returned)]
      \<and> error (conns (fst (step (SettleDisconnect q (Rejected e)) s)) c) = Some e"
    by (simp add: settle_disconnect_def Let_def disconnect_resume_def disconnect_catch_def)
  show ?thesis
    using 1 2
    by (simp add: ui_connect_settle_def ui_disconnect_settle_def wallet_connect_settle_def
        wallet_disconnect_settle_def)
qed

theorem rejection_propagation_witness:
  "reachable busy
   \<and> pendingConnects busy 2 = Some \<lparr>op_wallet = acme, op_this = 1, op_awaiting = [(2, acme)]\<rparr>
   \<and> pendingDisconnects busy 1 = Some 0
   \<and> snd (step (SettleConnect 2 (Rejected ''Connection failed'')) busy) = [(1, Returned), (2, Returned)]
   \<and> error (conns (fst (step (SettleConnect 2 (Rejected ''Connection failed'')) busy)) 1)
        = Some ''Connection failed''
   \<and> error (conns (fst (step (SettleConnect 2 (Rejected ''Connection failed'')) busy)) 2)
        = Some ''Connection failed''
   \<and> snd (step (SettleDisconnect 1 (Rejected ''Connection failed'')) busy) = [(0, Returned)]
   \<and> error (conns (fst (step (SettleDisconnect 1 (Rejected ''Connection failed'')) busy)) 0)
        = Some ''Connection failed''
   \<and> snd (ui_connect_settle (Rejected ''Connection failed'')
        (fst (ui_connect derive0 [acme] 0 (new_UiWalletConnect acme_ui)))) = Rejected ''Connection failed''"
proof -
  have r: "reachable busy" unfolding busy_def by (rule reachable_run)
  note R = rejection_propagation[of busy 2
      "\<lparr>op_wallet = acme, op_this = 1, op_awaiting = [(2, acme)]\<rparr>" "''Connection failed''" 1 0
      "fst (ui_connect derive0 [acme] 0 (new_UiWalletConnect acme_ui))"]
  have 1: "snd (step (SettleConnect 2 (Rejected ''Connection failed'')) busy)
       = map (\<lambda>c. (c, Returned)) (participants \<lparr>op_wallet = acme, op_this = 1, op_awaiting = [(2, acme)]\<rparr>)
     \<and> (\<forall>c \<in> set (participants \<lparr>op_wallet = acme, op_this = 1, op_awaiting = [(2, acme)]\<rparr>).
            error (conns (fst (step (SettleConnect 2 (Rejected ''Connection failed'')) busy)) c)
              = Some ''Connection failed'')"
    using R r busy_pending(1) by blast
  have 2: "snd (step (SettleDisconnect 1 (Rejected ''Connection failed'')) busy) = [(0, Returned)]
      \<and> error (conns (fst (step (SettleDisconnect 1 (Rejected ''Connection failed'')) busy)) 0)
           = Some ''Connection failed''"
    using R busy_pending(2) by blast
  have 3: "snd (ui_connect_settle (Rejected ''Connection failed'')
        (fst (ui_connect derive0 [acme] 0 (new_UiWalletConnect acme_ui)))) = Rejected ''Connection failed''"
    using R by blast
  have p: "participants \<lparr>op_wallet = acme, op_this = 1, op_awaiting = [(2, acme)]\<rparr> = [1, 2]"
    by (simp add: participants_def)
  show ?thesis
    using 1 2 3 r busy_pending unfolding p by simp
qed

section \<open>Claims about the collections\<close>

text \<open>
  Claim C7. A \<^verbatim>\<open>WalletsStore\<close> built on a registry holds the array \<^verbatim>\<open>get()\<close> answered at
  construction. After any sequence of registry events and provider \<^verbatim>\<open>change\<close> events,
  a further \<^verbatim>\<open>register\<close> or \<^verbatim>\<open>unregister\<close> event leaves \<open>wallets\<close> equal to what
  \<^verbatim>\<open>get()\<close> answers then: the listener re-reads the whole array. At every moment the
  elements of \<open>wallets\<close> are the elements of the registry's current array.
\<close>

theorem collection_follows_registry:
  "wallets (snd (new_world reg)) = get reg
   \<and> wallets (snd (world_step (Register reg') (world_run evs (new_world reg)))) = get reg'
   \<and> fst (world_step (Register reg') (world_run evs (new_world reg))) = reg'
   \<and> wallets (snd (world_step (Unregister reg') (world_run evs (new_world reg)))) = get reg'
   \<and> fst (world_step (Unregister reg') (world_run evs (new_world reg))) = reg'
   \<and> elems (wallets (snd (world_run evs (new_world reg))))
        = elems (get (fst (world_run evs (new_world reg))))"
proof -
  obtain r st where x: "world_run evs (new_world reg) = (r, st)"
    by (cases "world_run evs (new_world reg)")
  have "world_inv (r, st)" using world_inv_run[OF world_inv_new, of evs reg] x by simp
  then have s: "store_inv st" and e: "elems (wallets st) = registered r"
    by (simp_all add: world_inv_def)
  show ?thesis
    using s e unfolding x
    by (simp add: on_registry_live get_def)
      (simp add: new_world_def new_WalletsStore_def get_def)
qed

theorem collection_follows_registry_witness:
  "wallets (snd (new_world reg0)) = get reg0
   \<and> wallets (snd (world_run [Register reg1, Change 2, Unregister reg0] (new_world reg0))) = get reg0
   \<and> wallets (snd (world_run [Unregister reg0, Change 2, Register reg1] (new_world reg0))) = get reg1"
  using collection_follows_registry[of reg0 reg0 "[Register reg1, Change 2]" ]
    collection_follows_registry[of reg0 reg1 "[Unregister reg0, Change 2]"]
  by (simp add: )

text \<open>
  Claim C8. In a store that was built and then received any events, a provider that
  is in \<open>wallets\<close> and exposes the events capability has a \<^verbatim>\<open>change\<close> listener; when
  it emits \<^verbatim>\<open>change\<close>, \<open>wallets\<close> becomes an array with another reference and the same
  elements in the same order.
\<close>

theorem change_replaces_sequence:
  assumes "w \<in> set (elems (wallets (snd (world_run evs (new_world reg)))))"
    and "StandardEvents \<in> set (features w)"
  shows "ref (wallets (snd (world_step (Change (ident w)) (world_run evs (new_world reg)))))
           \<noteq> ref (wallets (snd (world_run evs (new_world reg))))
       \<and> elems (wallets (snd (world_step (Change (ident w)) (world_run evs (new_world reg)))))
           = elems (wallets (snd (world_run evs (new_world reg))))"
proof -
  obtain r st where x: "world_run evs (new_world reg) = (r, st)"
    by (cases "world_run evs (new_world reg)")
  have "world_inv (r, st)" using world_inv_run[OF world_inv_new, of evs reg] x by simp
  then have s: "store_inv st" by (simp add: world_inv_def)
  have mem: "w \<in> set (elems (wallets st))" using assms(1) x by simp
  have "ident w \<in> set (eventDisposers st)"
    using s mem assms(2) by (auto simp: store_inv_def)
  then have "count_list (eventDisposers st) (ident w) \<noteq> 0"
    by (simp add: count_list_0_iff)
  then have pos: "0 < count_list (eventDisposers st) (ident w)" by simp
  let ?n = "count_list (eventDisposers st) (ident w)"
  have new: "ref (wallets (emit_change (ident w) st)) = SpreadArray (spreads st + ?n - 1)"
    using on_change_pow_ref[OF pos] by (simp add: emit_change_def)
  have "ref (wallets st) \<noteq> SpreadArray (spreads st + ?n - 1)"
    using s pos by (auto simp: store_inv_def split: aref.splits)
  then show ?thesis using new x by simp
qed

theorem change_replaces_sequence_witness:
  "acme_events \<in> set (elems (wallets (snd (world_run [Register reg1] (new_world reg0)))))
   \<and> StandardEvents \<in> set (features acme_events)
   \<and> wallets (snd (world_run [Register reg1] (new_world reg0)))
        = \<lparr>ref = RegistryArray 1, elems = [basic, acme_events]\<rparr>
   \<and> wallets (snd (world_run [Register reg1, Change 2] (new_world reg0)))
        = \<lparr>ref = SpreadArray 0, elems = [basic, acme_events]\<rparr>
   \<and> ref (wallets (snd (world_step (Change (ident acme_events)) (world_run [Register reg1] (new_world reg0)))))
        \<noteq> ref (wallets (snd (world_run [Register reg1] (new_world reg0))))"
proof -
  have w: "wallets (snd (world_run [Register reg1] (new_world reg0)))
        = \<lparr>ref = RegistryArray 1, elems = [basic, acme_events]\<rparr>"
    by (simp add: new_world_def new_WalletsStore_def on_registry_def get_def reg0_def reg1_def)
  have w2: "wallets (snd (world_run [Register reg1, Change 2] (new_world reg0)))
        = \<lparr>ref = SpreadArray 0, elems = [basic, acme_events]\<rparr>"
    by (simp add: new_world_def new_WalletsStore_def on_registry_def get_def reg0_def reg1_def
        emit_change_def setupEventListeners_def basic_def acme_events_def on_change_def
        StandardEvents_def StandardConnect_def)
  have h: "acme_events \<in> set (elems (wallets (snd (world_run [Register reg1] (new_world reg0)))))"
    "StandardEvents \<in> set (features acme_events)"
    unfolding w by (simp_all add: acme_events_def)
  show ?thesis
    using change_replaces_sequence[OF h] h w w2 by blast
qed

text \<open>
  Claim C9. Deriving the Public Handle of a provider again, after any derivations for
  other or the same providers, or at once, returns the handle the first derivation
  returned, the same object (same \<open>handle\<close> number). So \<^verbatim>\<open>useWallets\<close> and
  \<^verbatim>\<open>loadWallets\<close> called again on the same registry array return the same handles.
\<close>

theorem derive_identity_stable:
  "fst (derivePublicHandle w (snd (map_derive ws (snd (derivePublicHandle w c)))))
     = fst (derivePublicHandle w c)
   \<and> fst (derivePublicHandle w (snd (derivePublicHandle w c))) = fst (derivePublicHandle w c)
   \<and> fst (useWallets reg (snd (useWallets reg c))) = fst (useWallets reg c)
   \<and> ui_wallets (fst (loadWallets reg store' (snd (loadWallets reg store c))))
       = ui_wallets (fst (loadWallets reg store c))"
proof -
  have k: "cached (snd (derivePublicHandle w c)) (ident w) = Some (fst (derivePublicHandle w c))"
    by (rule derive_caches)
  have 1: "fst (derivePublicHandle w (snd (map_derive ws (snd (derivePublicHandle w c)))))
     = fst (derivePublicHandle w c)"
    using derive_cached[OF map_derive_keeps[OF k]] by simp
  have 2: "fst (derivePublicHandle w (snd (derivePublicHandle w c))) = fst (derivePublicHandle w c)"
    using derive_cached[OF k] by simp
  have 3: "fst (useWallets reg (snd (useWallets reg c))) = fst (useWallets reg c)"
    by (simp add: useWallets_def map_derive_twice)
  have 4: "ui_wallets (fst (loadWallets reg store' (snd (loadWallets reg store c))))
       = ui_wallets (fst (loadWallets reg store c))"
    using map_derive_twice[of "elems (get reg)" c]
    by (simp add: loadWallets_def case_prod_unfold Let_def)
  show ?thesis using 1 2 3 4 by blast
qed

theorem derive_identity_stable_witness:
  "fst (derivePublicHandle acme empty_cache) = \<lparr>handle = 0, ui_name = ''Acme'',
       ui_features = [StandardConnect, StandardDisconnect]\<rparr>
   \<and> fst (derivePublicHandle acme (snd (map_derive [basic, acme_events, acme]
        (snd (derivePublicHandle acme empty_cache)))))
      = \<lparr>handle = 0, ui_name = ''Acme'', ui_features = [StandardConnect, StandardDisconnect]\<rparr>
   \<and> fst (derivePublicHandle basic (snd (derivePublicHandle acme empty_cache)))
      = \<lparr>handle = 1, ui_name = ''Basic Wallet'', ui_features = []\<rparr>"
proof -
  have a: "fst (derivePublicHandle acme empty_cache) = \<lparr>handle = 0, ui_name = ''Acme'',
       ui_features = [StandardConnect, StandardDisconnect]\<rparr>"
    by (simp add: derivePublicHandle_def empty_cache_def acme_def Let_def)
  have b: "fst (derivePublicHandle basic (snd (derivePublicHandle acme empty_cache)))
      = \<lparr>handle = 1, ui_name = ''Basic Wallet'', ui_features = []\<rparr>"
    by (simp add: derivePublicHandle_def empty_cache_def acme_def basic_def Let_def)
  note S = derive_identity_stable[of acme "[basic, acme_events, acme]" empty_cache, THEN conjunct1]
  show ?thesis using S a b by simp
qed

end
